theory Spec2Isabelle
  imports Complex_Main "HOL-Library.Word" "HOL-Library.Sublist"
begin

section \<open>JavaScript strings\<close>

text \<open>
  A JavaScript string is a sequence of 16-bit code units. Literals of the source are written
  through \<open>js\<close>, which maps every (ASCII) character of an Isabelle string to its code unit.
\<close>

type_synonym jsstring = "16 word list"

definition js :: "string \<Rightarrow> jsstring" where
  "js s = map (\<lambda>c. of_nat (of_char c)) s"

definition LF :: "16 word" where
  "LF = 0x0A"

definition backtick :: "16 word" where
  "backtick = 0x60"

definition hash :: "16 word" where
  "hash = 0x23"

definition hyphen :: "16 word" where
  "hyphen = 0x2D"

text \<open>
  The class \<open>\s\<close> of a regular expression and the characters removed by
  \<open>String.prototype.trim\<close> are the same set: WhiteSpace and LineTerminator of ECMAScript
  (TAB, LF, VT, FF, CR, SP, NBSP, the Unicode space separators, LS, PS and the BOM).
\<close>

definition is_ws :: "16 word \<Rightarrow> bool" where
  "is_ws c = (c = 0x09 \<or> c = 0x0A \<or> c = 0x0B \<or> c = 0x0C \<or> c = 0x0D \<or> c = 0x20 \<or> c = 0xA0
      \<or> c = 0x1680 \<or> (0x2000 \<le> c \<and> c \<le> 0x200A) \<or> c = 0x2028 \<or> c = 0x2029
      \<or> c = 0x202F \<or> c = 0x205F \<or> c = 0x3000 \<or> c = 0xFEFF)"

text \<open>The class \<open>\d\<close>: the ten ASCII digits.\<close>

definition is_digit :: "16 word \<Rightarrow> bool" where
  "is_digit c = (0x30 \<le> c \<and> c \<le> 0x39)"

text \<open>\<open>s.trim()\<close>: whitespace is removed from both ends.\<close>

definition trim :: "jsstring \<Rightarrow> jsstring" where
  "trim s = rev (dropWhile is_ws (rev (dropWhile is_ws s)))"

text \<open>\<open>s.split('\n')\<close>: never the empty array; the empty string gives one empty line.\<close>

fun split_lines :: "jsstring \<Rightarrow> jsstring list" where
  "split_lines [] = [[]]"
| "split_lines (c # cs) =
     (if c = LF then [] # split_lines cs
      else (case split_lines cs of [] \<Rightarrow> [[c]] | l # ls \<Rightarrow> (c # l) # ls))"

text \<open>\<open>ls.join('\n')\<close>: the empty array gives the empty string.\<close>

fun join_lines :: "jsstring list \<Rightarrow> jsstring" where
  "join_lines [] = []"
| "join_lines [l] = l"
| "join_lines (l # l' # ls) = l @ LF # join_lines (l' # ls)"

section \<open>Settings\<close>

text \<open>
  The interface \<open>CleanNotesSettings\<close>. The field \<open>removeEmptySections\<close> carries the suffix
  \<open>_flag\<close> here, since the method of the same name is modelled below.
\<close>

record CleanNotesSettings =
  dailyNotesFolder :: jsstring
  daysAfter :: int
  removeButtons :: bool
  removeTaskQueries :: bool
  removeEmptySections_flag :: bool

definition DEFAULT_SETTINGS :: CleanNotesSettings where
  "DEFAULT_SETTINGS = \<lparr> dailyNotesFolder = [], daysAfter = 7, removeButtons = True,
     removeTaskQueries = True, removeEmptySections_flag = True \<rparr>"

section \<open>Removal of fenced blocks\<close>

text \<open>
  \<open>out.replace(/```tag[\s\S]*?```/g, '')\<close> for a literal \<open>tag\<close> (\<open>button\<close> and \<open>tasks\<close> in
  the source). The lazy \<open>[\s\S]*?\<close> stops at the first position where three backticks follow:
  \<open>find_close\<close> returns what is left of the string behind that closing fence.
\<close>

definition fence :: jsstring where
  "fence = [backtick, backtick, backtick]"

fun find_close :: "jsstring \<Rightarrow> jsstring option" where
  "find_close [] = None"
| "find_close (c # cs) =
     (if prefix fence (c # cs) then Some (drop 3 (c # cs)) else find_close cs)"

text \<open>
  One attempt of the regular expression at the start of \<open>s\<close>: the opening fence and the tag
  must be there, and a closing fence behind them. The result is the text behind the match.
\<close>

definition match_at :: "jsstring \<Rightarrow> jsstring \<Rightarrow> jsstring option" where
  "match_at tag s =
     (if prefix (fence @ tag) s then find_close (drop (length (fence @ tag)) s) else None)"

text \<open>
  The global replacement: the leftmost match is deleted and the search goes on behind it;
  where the expression does not match, the code unit is copied.
\<close>

function replace_fenced :: "jsstring \<Rightarrow> jsstring \<Rightarrow> jsstring" where
  "replace_fenced tag s =
     (case match_at tag s of
        Some r \<Rightarrow> replace_fenced tag r
      | None \<Rightarrow> (case s of [] \<Rightarrow> [] | c # cs \<Rightarrow> c # replace_fenced tag cs))"
  by pat_completeness auto
termination
proof (relation "measure (\<lambda>(tag, s). length s)")
  show "wf (measure (\<lambda>(tag :: jsstring, s :: jsstring). length s))"
    by simp
next
  fix tag s :: jsstring and r
  assume m: "match_at tag s = Some r"
  have fc: "find_close u = Some v \<Longrightarrow> length v < length u" for u v
    by (induction u) (auto split: if_splits)
  from m have "find_close (drop (length (fence @ tag)) s) = Some r"
    by (simp add: match_at_def split: if_splits)
  from fc [OF this] have "length r < length s"
    by simp
  then show "((tag, r), (tag, s)) \<in> measure (\<lambda>(tag, s). length s)"
    by simp
next
  fix tag s :: jsstring and c cs
  assume "s = c # cs"
  then show "((tag, cs), (tag, s)) \<in> measure (\<lambda>(tag, s). length s)"
    by simp
qed

section \<open>Removal of empty sections\<close>

text \<open>The test \<open>/^#+\s/\<close>: one or more \<open>#\<close> at the start, then a whitespace character.\<close>

definition is_heading :: "jsstring \<Rightarrow> bool" where
  "is_heading line =
     (case dropWhile (\<lambda>c. c = hash) line of
        [] \<Rightarrow> False
      | c # _ \<Rightarrow> takeWhile (\<lambda>c. c = hash) line \<noteq> [] \<and> is_ws c)"

text \<open>
  The inner \<open>while\<close> loop of \<open>removeEmptySections\<close>: from index \<open>j\<close> on, up to the next
  heading or the end; it returns the final \<open>j\<close> and \<open>hasContent\<close>.
\<close>

function scan_section :: "jsstring list \<Rightarrow> nat \<Rightarrow> bool \<Rightarrow> nat \<times> bool" where
  "scan_section lines j hasContent =
     (if j < length lines \<and> \<not> is_heading (lines ! j)
      then scan_section lines (j + 1) (if trim (lines ! j) \<noteq> [] then True else hasContent)
      else (j, hasContent))"
  by pat_completeness auto
termination
  by (relation "measure (\<lambda>(lines, j, hasContent). length lines - j)") auto

text \<open>
  The \<open>for\<close> loop over \<open>i\<close>, with the array \<open>result\<close>. For a heading without content the
  source sets \<open>i = j - 1\<close> and continues, so that the increment of the loop gives \<open>j\<close>.
\<close>

function section_loop :: "jsstring list \<Rightarrow> nat \<Rightarrow> jsstring list \<Rightarrow> jsstring list" where
  "section_loop lines i result =
     (if i < length lines then
        (let line = lines ! i in
         if is_heading line then
           (case scan_section lines (i + 1) False of
              (j, hasContent) \<Rightarrow>
                if \<not> hasContent then section_loop lines ((j - 1) + 1) result
                else section_loop lines (i + 1) (result @ [line]))
         else section_loop lines (i + 1) (result @ [line]))
      else result)"
  by pat_completeness auto
termination
proof (relation "measure (\<lambda>(lines, i, result). length lines - i)")
  show "wf (measure (\<lambda>(lines :: jsstring list, i :: nat, result :: jsstring list). length lines - i))"
    by simp
next
  fix lines :: "jsstring list" and i :: nat and result :: "jsstring list"
    and j :: nat and hasContent :: bool
  assume i: "i < length lines"
    and jh: "(j, hasContent) = scan_section lines (i + 1) False"
  have ge: "k \<le> fst (scan_section lines k h)" for k h
  proof (induction lines k h rule: scan_section.induct)
    case (1 lines j hasContent)
    show ?case
    proof (cases "j < length lines \<and> \<not> is_heading (lines ! j)")
      case True
      with 1 [OF True] show ?thesis
        by (subst scan_section.simps) simp
    next
      case False
      then show ?thesis
        by (subst scan_section.simps) simp
    qed
  qed
  from ge [of "i + 1" False] jh have "i + 1 \<le> j"
    by (metis fst_conv)
  with i show "((lines, j - 1 + 1, result), (lines, i, result))
      \<in> measure (\<lambda>(lines, i, result). length lines - i)"
    by simp
qed simp_all

definition removeEmptySections :: "jsstring \<Rightarrow> jsstring" where
  "removeEmptySections text = join_lines (section_loop (split_lines text) 0 [])"

section \<open>The pipeline of transforms\<close>

definition applyTransforms :: "CleanNotesSettings \<Rightarrow> jsstring \<Rightarrow> jsstring" where
  "applyTransforms settings text =
     (let out = text;
          out = (if removeButtons settings then replace_fenced (js ''button'') out else out);
          out = (if removeTaskQueries settings then replace_fenced (js ''tasks'') out else out);
          out = (if removeEmptySections_flag settings then removeEmptySections out else out)
      in trim out @ js ''\<newline>'')"

section \<open>Age of a note\<close>

text \<open>
  \<open>basename.match(/(\d{4}-\d{2}-\d{2})/)\<close>: the leftmost substring of the shape four digits,
  hyphen, two digits, hyphen, two digits; \<open>None\<close> is the \<open>null\<close> of the source.
\<close>

definition date_shape :: "jsstring \<Rightarrow> bool" where
  "date_shape s =
     (length s = 10 \<and> list_all is_digit (take 4 s) \<and> s ! 4 = hyphen
      \<and> list_all is_digit (take 2 (drop 5 s)) \<and> s ! 7 = hyphen
      \<and> list_all is_digit (drop 8 s))"

fun match_date :: "jsstring \<Rightarrow> jsstring option" where
  "match_date [] = None"
| "match_date (c # cs) =
     (if date_shape (take 10 (c # cs)) then Some (take 10 (c # cs)) else match_date cs)"

definition digit_value :: "16 word \<Rightarrow> int" where
  "digit_value c = uint c - 48"

definition decimal :: "jsstring \<Rightarrow> int" where
  "decimal ds = foldl (\<lambda>a c. 10 * a + digit_value c) 0 ds"

definition year_field :: "jsstring \<Rightarrow> int" where
  "year_field s = decimal (take 4 s)"

definition month_field :: "jsstring \<Rightarrow> int" where
  "month_field s = decimal (take 2 (drop 5 s))"

definition day_field :: "jsstring \<Rightarrow> int" where
  "day_field s = decimal (take 2 (drop 8 s))"

text \<open>
  The time value of \<open>new Date(s)\<close> for a string of the shape \<open>YYYY-MM-DD\<close>, in milliseconds
  since the epoch; \<open>None\<close> is the time value \<open>NaN\<close> of an invalid date. The constructor belongs
  to the JavaScript engine of the host application (V8), whose parser has two stages.

  The ISO stage takes a month from 01 to 12 and a day from 01 to 31, whatever the month. The
  string is then UTC midnight, and the day number is \<open>MakeDay\<close> of ECMAScript: a day beyond
  the end of its month runs over into the next month.

  A string the ISO stage refuses is read by the legacy stage, which takes the three numbers
  as it finds them. When the first number is a day number (from 1 to 31) the order is month,
  day, year: \<open>YYYY\<close> is the month, valid from 1 to 12, \<open>MM\<close> is the day, valid from 1 to 31, and
  \<open>DD\<close> is the year, a year up to 49 in 2000 and a year from 50 in 1900. Otherwise the order is
  year, month, day, and the date is invalid, since the month or the day is out of range. A
  date of the legacy stage is midnight in local time: \<open>tza t\<close> is the offset of local time
  from UTC, in milliseconds, at the local time \<open>t\<close>.
\<close>

definition msPerDay :: int where
  "msPerDay = 1000 * 60 * 60 * 24"

definition InLeapYear :: "int \<Rightarrow> bool" where
  "InLeapYear y = (y mod 4 = 0 \<and> (y mod 100 \<noteq> 0 \<or> y mod 400 = 0))"

definition DayFromYear :: "int \<Rightarrow> int" where
  "DayFromYear y = 365 * (y - 1970) + (y - 1969) div 4 - (y - 1901) div 100 + (y - 1601) div 400"

text \<open>The days of the year before the month \<open>mn\<close> (from 0 to 11) starts.\<close>

definition DayWithinYear :: "bool \<Rightarrow> int \<Rightarrow> int" where
  "DayWithinYear leap mn =
     [0, 31, 59, 90, 120, 151, 181, 212, 243, 273, 304, 334] ! nat mn
       + (if leap \<and> 2 \<le> mn then 1 else 0)"

definition MakeDay :: "int \<Rightarrow> int \<Rightarrow> int \<Rightarrow> int" where
  "MakeDay year mn dt = DayFromYear year + DayWithinYear (InLeapYear year) mn + dt - 1"

definition IsMonth :: "int \<Rightarrow> bool" where
  "IsMonth x = (1 \<le> x \<and> x \<le> 12)"

definition IsDay :: "int \<Rightarrow> bool" where
  "IsDay x = (1 \<le> x \<and> x \<le> 31)"

text \<open>The legacy stage, for the numbers \<open>c0\<close>, \<open>c1\<close> and \<open>c2\<close> in the order of the string.\<close>

definition legacy_date :: "(int \<Rightarrow> int) \<Rightarrow> int \<Rightarrow> int \<Rightarrow> int \<Rightarrow> int option" where
  "legacy_date tza c0 c1 c2 =
     (let (year, month, day) = (if \<not> IsDay c0 then (c0, c1, c2) else (c2, c0, c1));
          year = (if 0 \<le> year \<and> year \<le> 49 then year + 2000
                  else if 50 \<le> year \<and> year \<le> 99 then year + 1900 else year)
      in if IsMonth month \<and> IsDay day
         then (let t = MakeDay year (month - 1) day * msPerDay in Some (t - tza t))
         else None)"

definition Date_getTime :: "(int \<Rightarrow> int) \<Rightarrow> jsstring \<Rightarrow> int option" where
  "Date_getTime tza s =
     (let y = year_field s; m = month_field s; d = day_field s
      in if IsMonth m \<and> IsDay d then Some (MakeDay y (m - 1) d * msPerDay)
         else legacy_date tza y m d)"

text \<open>
  \<open>isOldEnough\<close>, with the value \<open>now\<close> of \<open>new Date().getTime()\<close> and the local time zone of
  the engine as arguments. The difference of two time values is exact, and its quotient by
  the milliseconds of a day is compared with \<open>daysAfter\<close> as a rational number: for time values
  and an integer threshold the rounding of the floating-point division cannot change the
  comparison.
\<close>

definition isOldEnough :: "CleanNotesSettings \<Rightarrow> (int \<Rightarrow> int) \<Rightarrow> int \<Rightarrow> jsstring \<Rightarrow> bool" where
  "isOldEnough settings tza now basename =
     (case match_date basename of
        None \<Rightarrow> False
      | Some m \<Rightarrow>
          (case Date_getTime tza m of
             None \<Rightarrow> False
           | Some fileDate \<Rightarrow>
               (let diff = (of_int (now - fileDate) :: rat) / of_int (1000 * 60 * 60 * 24)
                in of_int (daysAfter settings) \<le> diff)))"

section \<open>The vault and the run over a folder\<close>

text \<open>
  The entries of the vault: a \<open>TFile\<close> with its path, basename and extension, or a \<open>TFolder\<close>
  with its path and children. The test \<open>instanceof\<close> is the case distinction.
\<close>

datatype TAbstractFile =
  TFile jsstring jsstring jsstring
| TFolder jsstring "TAbstractFile list"

text \<open>
  What the plugin sees of the application: \<open>getAbstractFileByPath\<close> as the map \<open>fileMap\<close>,
  the contents of the files by path, the paths whose \<open>read\<close> or \<open>modify\<close> is rejected by the
  vault, the folder option of the daily-notes core plugin, the local time zone of the
  engine (the offset of local time from UTC, in milliseconds, at a local time), and, for the
  statements about effects, the requests sent to the vault and the notices shown so far.
\<close>

datatype request = Read jsstring | Modify jsstring jsstring

datatype failure = ReadFailed jsstring | ModifyFailed jsstring

record app =
  fileMap :: "jsstring \<rightharpoonup> TAbstractFile"
  contents :: "jsstring \<rightharpoonup> jsstring"
  read_rejected :: "jsstring set"
  modify_rejected :: "jsstring set"
  daily_notes_folder_option :: "jsstring option"
  LocalTZA :: "int \<Rightarrow> int"
  requests :: "request list"
  notices :: "jsstring list"

text \<open>The promise of an \<open>async\<close> call is resolved, or rejected with a failure.\<close>

datatype outcome = Resolved | Rejected failure

definition vault_read :: "jsstring \<Rightarrow> app \<Rightarrow> (failure + jsstring) \<times> app" where
  "vault_read p a =
     (let a' = a\<lparr>requests := requests a @ [Read p]\<rparr>
      in case contents a p of
           None \<Rightarrow> (Inl (ReadFailed p), a')
         | Some text \<Rightarrow> if p \<in> read_rejected a then (Inl (ReadFailed p), a') else (Inr text, a'))"

definition vault_modify :: "jsstring \<Rightarrow> jsstring \<Rightarrow> app \<Rightarrow> outcome \<times> app" where
  "vault_modify p text a =
     (let a' = a\<lparr>requests := requests a @ [Modify p text]\<rparr>
      in if p \<in> modify_rejected a then (Rejected (ModifyFailed p), a')
         else (Resolved, a'\<lparr>contents := (contents a')(p \<mapsto> text)\<rparr>))"

definition Notice :: "jsstring \<Rightarrow> app \<Rightarrow> app" where
  "Notice message a = a\<lparr>notices := notices a @ [message]\<rparr>"

definition getDefaultDailyNotesFolder :: "app \<Rightarrow> jsstring" where
  "getDefaultDailyNotesFolder a =
     (case daily_notes_folder_option a of None \<Rightarrow> [] | Some folder \<Rightarrow> folder)"

text \<open>
  The body of the \<open>for\<close> loop for one child. An exception of \<open>read\<close> or \<open>modify\<close> is not
  caught in \<open>cleanNotes\<close>: it leaves the loop and rejects the promise of the run.
\<close>

definition clean_child :: "CleanNotesSettings \<Rightarrow> int \<Rightarrow> TAbstractFile \<Rightarrow> app \<Rightarrow> outcome \<times> app" where
  "clean_child settings now child a =
     (case child of
        TFolder p cs \<Rightarrow> (Resolved, a)
      | TFile p basename extension \<Rightarrow>
          if extension = js ''md'' then
            if \<not> isOldEnough settings (LocalTZA a) now basename then (Resolved, a)
            else
              (case vault_read p a of
                 (Inl e, a1) \<Rightarrow> (Rejected e, a1)
               | (Inr original, a1) \<Rightarrow>
                   (let cleaned = applyTransforms settings original
                    in if original \<noteq> cleaned then vault_modify p cleaned a1
                       else (Resolved, a1)))
          else (Resolved, a))"

text \<open>
  The loop over \<open>folder.children\<close>. Every call of \<open>isOldEnough\<close> reads the clock anew:
  \<open>clock k\<close> is the time at which the child of index \<open>k\<close> is looked at.
\<close>

fun clean_children ::
  "CleanNotesSettings \<Rightarrow> (nat \<Rightarrow> int) \<Rightarrow> nat \<Rightarrow> TAbstractFile list \<Rightarrow> app \<Rightarrow> outcome \<times> app" where
  "clean_children settings clock k [] a = (Resolved, a)"
| "clean_children settings clock k (child # rest) a =
     (case clean_child settings (clock k) child a of
        (Rejected e, a') \<Rightarrow> (Rejected e, a')
      | (Resolved, a') \<Rightarrow> clean_children settings clock (k + 1) rest a')"

definition cleanNotes :: "CleanNotesSettings \<Rightarrow> (nat \<Rightarrow> int) \<Rightarrow> app \<Rightarrow> outcome \<times> app" where
  "cleanNotes settings clock a =
     (let folderPath =
            (if dailyNotesFolder settings \<noteq> [] then dailyNotesFolder settings
             else getDefaultDailyNotesFolder a)
      in if folderPath = [] then (Resolved, Notice (js ''Daily notes folder not set'') a)
         else
           (case fileMap a folderPath of
              Some (TFolder p children) \<Rightarrow>
                (case clean_children settings clock 0 children a of
                   (Rejected e, a') \<Rightarrow> (Rejected e, a')
                 | (Resolved, a') \<Rightarrow> (Resolved, Notice (js ''Finished cleaning daily notes'') a'))
            | _ \<Rightarrow> (Resolved, Notice (js ''Folder not found: '' @ folderPath) a)))"

section \<open>Notions of the specification\<close>

subsection \<open>Fenced regions\<close>

text \<open>Three backticks occur somewhere in the text.\<close>

fun has_fence :: "jsstring \<Rightarrow> bool" where
  "has_fence [] = False"
| "has_fence (c # cs) = (prefix fence (c # cs) \<or> has_fence cs)"

text \<open>An opening fence occurs somewhere: three backticks immediately followed by the tag.\<close>

fun has_opening :: "jsstring \<Rightarrow> jsstring \<Rightarrow> bool" where
  "has_opening tag [] = False"
| "has_opening tag (c # cs) = (prefix (fence @ tag) (c # cs) \<or> has_opening tag cs)"

text \<open>
  A fenced region starts at the head of the text: it opens with three backticks immediately
  followed by the tag and closes at the next occurrence of three backticks behind them.
\<close>

definition region_here :: "jsstring \<Rightarrow> jsstring \<Rightarrow> bool" where
  "region_here tag s = (prefix (fence @ tag) s \<and> has_fence (drop (length (fence @ tag)) s))"

text \<open>The number of positions of the text at which a fenced region starts.\<close>

fun count_regions :: "jsstring \<Rightarrow> jsstring \<Rightarrow> nat" where
  "count_regions tag [] = 0"
| "count_regions tag (c # cs) =
     (if region_here tag (c # cs) then 1 else 0) + count_regions tag cs"

text \<open>
  The closing fence of a block with this body is the next occurrence of three backticks behind
  the opening fence and the tag: no three backticks start inside the body, neither wholly in
  it nor made of its last backticks and the first ones of the closing fence.
\<close>

definition closes_at_next_fence :: "jsstring \<Rightarrow> bool" where
  "closes_at_next_fence body = (\<not> has_fence (body @ take 2 fence))"

text \<open>
  The number of characters in front of the first occurrence of three backticks, and the
  length of the fenced region that starts at the head of the text: the opening fence and the
  tag, what stands in front of the next three backticks, and these.
\<close>

fun fence_index :: "jsstring \<Rightarrow> nat" where
  "fence_index [] = 0"
| "fence_index (c # cs) = (if prefix fence (c # cs) then 0 else Suc (fence_index cs))"

definition region_length :: "jsstring \<Rightarrow> jsstring \<Rightarrow> nat" where
  "region_length tag s =
     length (fence @ tag) + fence_index (drop (length (fence @ tag)) s) + length fence"

text \<open>
  The non-overlapping fenced regions of a text are found from left to right: where a region
  starts it is taken whole, and the search goes on behind its closing fence; elsewhere the
  search moves on by one character. \<open>scan_reaches tag pre rest\<close> says that in the text
  \<open>pre @ rest\<close> this search arrives at the start of \<open>rest\<close>: every region taken in \<open>pre\<close> also
  closes in \<open>pre\<close>, so that the start of \<open>rest\<close> is neither inside a region that opened
  earlier nor part of its closing fence.
\<close>

function scan_reaches :: "jsstring \<Rightarrow> jsstring \<Rightarrow> jsstring \<Rightarrow> bool" where
  "scan_reaches tag [] rest = True"
| "scan_reaches tag (c # cs) rest =
     (if region_here tag (c # cs @ rest)
      then (if region_length tag (c # cs @ rest) \<le> length (c # cs)
            then scan_reaches tag (drop (region_length tag (c # cs @ rest)) (c # cs)) rest
            else False)
      else scan_reaches tag cs rest)"
  by pat_completeness auto
termination
  by (relation "measure (\<lambda>(tag, pre, rest). length pre)")
    (auto simp: region_length_def fence_def)

text \<open>
  Every fenced region of the tag that the search finds is set off from what stands in front
  of it: it starts at the start of the text or directly behind a whitespace character, as a
  block at the start of a line does. The flag tells whether the head of the text is such a
  place; for a whole text it is \<open>True\<close>.
\<close>

function regions_set_off :: "jsstring \<Rightarrow> bool \<Rightarrow> jsstring \<Rightarrow> bool" where
  "regions_set_off tag b [] = True"
| "regions_set_off tag b (c # cs) =
     (if region_here tag (c # cs)
      then b \<and> regions_set_off tag False (drop (region_length tag (c # cs)) (c # cs))
      else regions_set_off tag (is_ws c) cs)"
  by pat_completeness auto
termination
  by (relation "measure (\<lambda>(tag, b, s). length s)")
    (auto simp: region_length_def fence_def)

subsection \<open>Sections\<close>

text \<open>A line has content when some character of it is not whitespace.\<close>

definition has_content :: "jsstring \<Rightarrow> bool" where
  "has_content line = list_ex (\<lambda>c. \<not> is_ws c) line"

text \<open>
  The pruning of empty sections as the specification words it, on the sequence of lines. At a
  heading line the following lines are scanned up to, but not including, the next heading
  line or the end. When none of them has content, the heading and the scanned lines are
  dropped and the walk resumes at the line that stopped the scan. Otherwise the heading and
  the scanned lines are kept as they are, and the walk resumes at the same place. A line
  before the first heading is kept.
\<close>

function prune_sections :: "jsstring list \<Rightarrow> jsstring list" where
  "prune_sections [] = []"
| "prune_sections (l # ls) =
     (if is_heading l then
        (let scanned = takeWhile (\<lambda>x. \<not> is_heading x) ls;
             rest = dropWhile (\<lambda>x. \<not> is_heading x) ls
         in if list_ex has_content scanned then l # scanned @ prune_sections rest
            else prune_sections rest)
      else l # prune_sections ls)"
  by pat_completeness auto
termination
  by (relation "measure length") (auto intro: le_imp_less_Suc length_dropWhile_le)


text \<open>
  The first line with content is a heading hidden behind leading whitespace, and its section
  is empty: the line is no heading line as it stands, it is one once its leading whitespace
  is removed, and no line behind it has content before the next heading line or the end.
\<close>

fun indented_heading_exposed :: "jsstring list \<Rightarrow> bool" where
  "indented_heading_exposed [] = False"
| "indented_heading_exposed (l # ls) =
     (if has_content l
      then \<not> is_heading l \<and> is_heading (dropWhile is_ws l)
           \<and> \<not> list_ex has_content (takeWhile (\<lambda>x. \<not> is_heading x) ls)
      else indented_heading_exposed ls)"

subsection \<open>The pipeline\<close>

text \<open>
  The enabled transforms in their fixed order: buttons, task queries, empty sections. A
  disabled transform is not in the list. \<open>staged\<close> applies the list from left to right.
\<close>

definition enabled_transforms :: "CleanNotesSettings \<Rightarrow> (jsstring \<Rightarrow> jsstring) list" where
  "enabled_transforms settings =
     (if removeButtons settings then [replace_fenced (js ''button'')] else []) @
     (if removeTaskQueries settings then [replace_fenced (js ''tasks'')] else []) @
     (if removeEmptySections_flag settings then [removeEmptySections] else [])"

definition staged :: "CleanNotesSettings \<Rightarrow> jsstring \<Rightarrow> jsstring" where
  "staged settings text = foldl (\<lambda>out f. f out) text (enabled_transforms settings)"

text \<open>
  The text left by the enabled removals of fenced blocks: first the buttons, then the task
  queries.
\<close>

definition without_buttons :: "CleanNotesSettings \<Rightarrow> jsstring \<Rightarrow> jsstring" where
  "without_buttons settings t =
     (if removeButtons settings then replace_fenced (js ''button'') t else t)"

definition stripped :: "CleanNotesSettings \<Rightarrow> jsstring \<Rightarrow> jsstring" where
  "stripped settings t =
     (if removeTaskQueries settings then replace_fenced (js ''tasks'') (without_buttons settings t)
      else without_buttons settings t)"

subsection \<open>Dates\<close>

text \<open>
  A substring of the shape \<open>YYYY-MM-DD\<close> starts at index \<open>i\<close> of the identifier. The calendar:
  the length of a month, and the dates that exist. \<open>utc_midnight y m d\<close> is the instant, in
  milliseconds since the epoch, of midnight (UTC) at the start of the day reached by counting
  from the first of month \<open>m\<close> of year \<open>y\<close> up to the number \<open>d\<close>; \<open>elapsed_days\<close> is the time
  from an instant to \<open>now\<close> in days, as a fraction.
\<close>

definition date_at :: "jsstring \<Rightarrow> nat \<Rightarrow> bool" where
  "date_at s i = date_shape (take 10 (drop i s))"

definition days_in_month :: "int \<Rightarrow> int \<Rightarrow> int" where
  "days_in_month y m =
     (if m = 2 then (if InLeapYear y then 29 else 28)
      else if m = 4 \<or> m = 6 \<or> m = 9 \<or> m = 11 then 30 else 31)"

definition valid_calendar_date :: "int \<Rightarrow> int \<Rightarrow> int \<Rightarrow> bool" where
  "valid_calendar_date y m d = (1 \<le> m \<and> m \<le> 12 \<and> 1 \<le> d \<and> d \<le> days_in_month y m)"

definition utc_midnight :: "int \<Rightarrow> int \<Rightarrow> int \<Rightarrow> int" where
  "utc_midnight y m d = MakeDay y (m - 1) d * msPerDay"

definition elapsed_days :: "int \<Rightarrow> int \<Rightarrow> rat" where
  "elapsed_days now t = of_int (now - t) / of_int msPerDay"

subsection \<open>Runs\<close>

text \<open>The path a request is for.\<close>

fun request_path :: "request \<Rightarrow> jsstring" where
  "request_path (Read p) = p"
| "request_path (Modify p text) = p"

text \<open>The paths of the entries of a folder that are files with the extension \<open>md\<close>.\<close>

fun md_child_paths :: "TAbstractFile list \<Rightarrow> jsstring list" where
  "md_child_paths [] = []"
| "md_child_paths (TFile p basename extension # cs) =
     (if extension = js ''md'' then [p] else []) @ md_child_paths cs"
| "md_child_paths (TFolder p children # cs) = md_child_paths cs"

text \<open>
  The children of the resolved folder: the configured path, or else the default of the
  daily-notes plugin, when it is not empty and names a folder of the vault.
\<close>

definition resolved_folder :: "CleanNotesSettings \<Rightarrow> app \<Rightarrow> TAbstractFile list option" where
  "resolved_folder settings a =
     (let folderPath = (if dailyNotesFolder settings \<noteq> [] then dailyNotesFolder settings
                        else getDefaultDailyNotesFolder a)
      in if folderPath = [] then None
         else (case fileMap a folderPath of Some (TFolder p children) \<Rightarrow> Some children | _ \<Rightarrow> None))"

text \<open>The paths of the direct children of the resolved folder that are \<open>md\<close> files.\<close>

definition md_children :: "CleanNotesSettings \<Rightarrow> app \<Rightarrow> jsstring list" where
  "md_children settings a =
     (case resolved_folder settings a of None \<Rightarrow> [] | Some children \<Rightarrow> md_child_paths children)"

text \<open>
  An example for the statements below: a folder \<open>daily\<close> with two notes, a text file and a
  subfolder with one note; the first note is clean, the other contents end in blanks.
\<close>

definition example_settings :: CleanNotesSettings where
  "example_settings = DEFAULT_SETTINGS\<lparr>dailyNotesFolder := js ''daily''\<rparr>"

definition example_zone :: "int \<Rightarrow> int" where
  "example_zone t = 3600000"

definition example_app :: app where
  "example_app =
     \<lparr> fileMap = [js ''daily'' \<mapsto> TFolder (js ''daily'')
          [TFile (js ''daily/2020-01-01.md'') (js ''2020-01-01'') (js ''md''),
           TFile (js ''daily/2020-01-02.md'') (js ''2020-01-02'') (js ''md''),
           TFile (js ''daily/2020-01-03.txt'') (js ''2020-01-03'') (js ''txt''),
           TFolder (js ''daily/old'')
             [TFile (js ''daily/old/2019-01-01.md'') (js ''2019-01-01'') (js ''md'')]]],
       contents = [js ''daily/2020-01-01.md'' \<mapsto> js ''kept\<newline>'',
                   js ''daily/2020-01-02.md'' \<mapsto> js ''text  '',
                   js ''daily/2020-01-03.txt'' \<mapsto> js ''text  '',
                   js ''daily/old/2019-01-01.md'' \<mapsto> js ''text  ''],
       read_rejected = {}, modify_rejected = {}, daily_notes_folder_option = None,
       LocalTZA = example_zone, requests = [], notices = [] \<rparr>"

definition example_clock :: "nat \<Rightarrow> int" where
  "example_clock k = 1679270400000 + int k"

text \<open>The requests sent to the vault between two states.\<close>

definition new_requests :: "app \<Rightarrow> app \<Rightarrow> request list" where
  "new_requests a a' = drop (length (requests a)) (requests a')"

section \<open>Properties of the removal of fenced blocks\<close>

declare replace_fenced.simps [simp del]

lemma replace_fenced_Nil: "replace_fenced tag [] = []"
  by (subst replace_fenced.simps) (simp add: match_at_def fence_def)

lemma replace_fenced_match:
  "match_at tag s = Some r \<Longrightarrow> replace_fenced tag s = replace_fenced tag r"
  by (subst replace_fenced.simps) simp

lemma replace_fenced_copy:
  "match_at tag (c # cs) = None \<Longrightarrow> replace_fenced tag (c # cs) = c # replace_fenced tag cs"
  by (subst replace_fenced.simps) simp

lemma find_close_None: "find_close s = None \<longleftrightarrow> \<not> has_fence s"
  by (induction s) auto

lemma find_close_Some:
  "find_close s = Some r \<Longrightarrow> \<exists>m. s = m @ fence @ r \<and> \<not> has_fence (m @ take 2 fence)"
proof (induction s)
  case Nil
  then show ?case by simp
next
  case (Cons c cs)
  show ?case
  proof (cases "prefix fence (c # cs)")
    case True
    with Cons.prems have r: "r = drop 3 (c # cs)" by simp
    from True obtain z where "c # cs = fence @ z" by (auto simp: prefix_def)
    with r have "c # cs = [] @ fence @ r" by (simp add: fence_def)
    moreover have "\<not> has_fence ([] @ take 2 fence)" by (simp add: fence_def)
    ultimately show ?thesis by blast
  next
    case False
    with Cons.prems have "find_close cs = Some r" by simp
    from Cons.IH [OF this] obtain m
      where m: "cs = m @ fence @ r" "\<not> has_fence (m @ take 2 fence)" by blast
    have "\<not> prefix fence (c # m @ take 2 fence)"
    proof
      assume "prefix fence (c # m @ take 2 fence)"
      then have "prefix fence ((c # m @ take 2 fence) @ (drop 2 fence @ r))"
        using prefix_prefix by blast
      moreover have "(c # m @ take 2 fence) @ (drop 2 fence @ r) = c # cs"
        using m(1) by (simp add: fence_def)
      ultimately show False using False by simp
    qed
    with m have "c # cs = (c # m) @ fence @ r \<and> \<not> has_fence ((c # m) @ take 2 fence)"
      by simp
    then show ?thesis by blast
  qed
qed

lemma match_at_None: "match_at tag s = None \<longleftrightarrow> \<not> region_here tag s"
  by (simp add: match_at_def region_here_def find_close_None)

text \<open>Where no match starts inside \<open>pre\<close>, the replacement copies \<open>pre\<close>.\<close>

lemma replace_fenced_keep:
  "(\<And>a b. pre = a @ b \<Longrightarrow> b \<noteq> [] \<Longrightarrow> match_at tag (b @ s) = None)
     \<Longrightarrow> replace_fenced tag (pre @ s) = pre @ replace_fenced tag s"
proof (induction pre)
  case Nil
  then show ?case by simp
next
  case (Cons c pre)
  have "match_at tag ((c # pre) @ s) = None"
    using Cons.prems [of "[]" "c # pre"] by simp
  then have "replace_fenced tag ((c # pre) @ s) = c # replace_fenced tag (pre @ s)"
    by (simp add: replace_fenced_copy)
  moreover have "replace_fenced tag (pre @ s) = pre @ replace_fenced tag s"
  proof (rule Cons.IH)
    fix a b assume "pre = a @ b" "b \<noteq> []"
    then show "match_at tag (b @ s) = None"
      using Cons.prems [of "c # a" b] by simp
  qed
  ultimately show ?case by simp
qed

lemma not_has_opening_drop: "\<not> has_opening tag (a @ b) \<Longrightarrow> \<not> has_opening tag b"
  by (induction a) auto

lemma not_has_opening_prefix: "\<not> has_opening tag s \<Longrightarrow> \<not> prefix (fence @ tag) s"
  by (cases s) (auto simp: fence_def)

lemma replace_fenced_no_opening:
  assumes no: "\<not> has_opening tag text"
  shows "replace_fenced tag text = text"
proof -
  have "replace_fenced tag (text @ []) = text @ replace_fenced tag []"
  proof (rule replace_fenced_keep)
    fix a b assume "text = a @ b" "b \<noteq> []"
    with no have "\<not> has_opening tag b" using not_has_opening_drop by blast
    then have "\<not> prefix (fence @ tag) b" by (rule not_has_opening_prefix)
    then show "match_at tag (b @ []) = None" by (simp add: match_at_def)
  qed
  then show ?thesis by (simp add: replace_fenced_Nil)
qed

lemma has_fence_mid: "has_fence (w @ fence @ r)"
  by (induction w) (auto simp: fence_def)

lemma not_has_fence_drop: "\<not> has_fence (a @ b) \<Longrightarrow> \<not> has_fence b"
  by (induction a) auto

lemma no_fence_no_opening: "\<not> has_fence s \<Longrightarrow> \<not> has_opening tag s"
proof (induction s)
  case Nil
  then show ?case by simp
next
  case (Cons c cs)
  have "\<not> prefix (fence @ tag) (c # cs)"
  proof
    assume "prefix (fence @ tag) (c # cs)"
    then have "prefix fence (c # cs)" using append_prefixD by blast
    with Cons.prems show False by simp
  qed
  with Cons show ?case by simp
qed

text \<open>What is left behind a match keeps every tail of the text that is free of fences and
  does not start with a backtick.\<close>

lemma match_at_tail:
  assumes m: "match_at tag (A @ t) = Some r"
    and nf: "\<not> has_fence t" and hd: "t = [] \<or> hd t \<noteq> backtick"
  shows "\<exists>A'. r = A' @ t \<and> length A' < length A"
proof -
  from m have "find_close (drop (length (fence @ tag)) (A @ t)) = Some r"
    and pre: "prefix (fence @ tag) (A @ t)"
    by (simp_all add: match_at_def split: if_splits)
  then obtain m0 where "drop (length (fence @ tag)) (A @ t) = m0 @ fence @ r"
    using find_close_Some by blast
  moreover from pre have "A @ t = (fence @ tag) @ drop (length (fence @ tag)) (A @ t)"
    by (metis append_eq_conv_conj prefix_def)
  ultimately have "A @ t = (fence @ tag @ m0 @ fence) @ r"
    by simp
  moreover define M where "M = fence @ tag @ m0 @ fence"
  ultimately have eq: "A @ t = M @ r"
    by simp
  have Mlen: "0 < length M"
    by (simp add: M_def fence_def)
  have Msuf: "suffix us M \<Longrightarrow> suffix us fence \<or> (\<exists>w. us = w @ fence)" for us
    unfolding M_def by (metis append.assoc suffix_append)
  from eq have "\<exists>us. (A = M @ us \<and> us @ t = r) \<or> (A @ us = M \<and> t = us @ r)"
    by (simp only: append_eq_append_conv2)
  then obtain us where
    "(A = M @ us \<and> us @ t = r) \<or> (A @ us = M \<and> t = us @ r)"
    by blast
  then show ?thesis
  proof
    assume "A = M @ us \<and> us @ t = r"
    with Mlen have "r = us @ t \<and> length us < length A"
      by auto
    then show ?thesis by blast
  next
    assume c: "A @ us = M \<and> t = us @ r"
    show ?thesis
    proof (cases "us = []")
      case True
      with c Mlen have "r = [] @ t \<and> length ([] :: jsstring) < length A"
        by auto
      then show ?thesis by blast
    next
      case False
      from c have "suffix us M"
        by (metis suffixI)
      then have "suffix us fence \<or> (\<exists>w. us = w @ fence)"
        by (rule Msuf)
      then show ?thesis
      proof
        assume "suffix us fence"
        then obtain v where "fence = v @ us" by (auto simp: suffix_def)
        with False have "hd us = backtick"
          by (cases v; cases us) (auto simp: fence_def Cons_eq_append_conv)
        with c False hd show ?thesis by auto
      next
        assume "\<exists>w. us = w @ fence"
        then obtain w where "us = w @ fence" by blast
        with c have "t = w @ fence @ r" by simp
        with nf has_fence_mid show ?thesis by blast
      qed
    qed
  qed
qed

lemma replace_fenced_tail:
  assumes nf: "\<not> has_fence t" and hd: "t = [] \<or> hd t \<noteq> backtick"
  shows "suffix t (replace_fenced tag (A @ t))"
proof (induction "length A" arbitrary: A rule: less_induct)
  case less
  show ?case
  proof (cases "match_at tag (A @ t)")
    case (Some r)
    from match_at_tail [OF Some nf hd] obtain A' where A': "r = A' @ t" "length A' < length A"
      by blast
    from less [OF A'(2)] A'(1) Some show ?thesis
      by (simp add: replace_fenced_match)
  next
    case None
    show ?thesis
    proof (cases A)
      case Nil
      from nf have "replace_fenced tag t = t"
        by (simp add: replace_fenced_no_opening no_fence_no_opening)
      with Nil show ?thesis by simp
    next
      case (Cons c A')
      with None have "replace_fenced tag (A @ t) = c # replace_fenced tag (A' @ t)"
        by (simp add: replace_fenced_copy)
      moreover from Cons have "suffix t (replace_fenced tag (A' @ t))"
        using less [of A'] by simp
      ultimately show ?thesis by (simp add: suffix_Cons)
    qed
  qed
qed


lemma prefix_shorter: "prefix xs (ys @ zs) \<Longrightarrow> length xs \<le> length ys \<Longrightarrow> prefix xs ys"
  by (metis prefix_length_prefix prefixI)

lemma has_fence_skip: "backtick \<notin> set a \<Longrightarrow> has_fence (a @ b) = has_fence b"
  by (induction a) (auto simp: fence_def)

lemma prefix_butlast:
  assumes f: "f \<noteq> []" and b: "b \<noteq> []" and p: "prefix f (b @ f @ rest)"
  shows "prefix f (b @ butlast f)"
proof -
  have "(b @ butlast f) @ (last f # rest) = b @ (butlast f @ [last f]) @ rest"
    by simp
  also have "\<dots> = b @ f @ rest"
    by (simp only: append_butlast_last_id [OF f])
  finally have "b @ f @ rest = (b @ butlast f) @ (last f # rest)"
    by (rule sym)
  with p have "prefix f ((b @ butlast f) @ (last f # rest))"
    by simp
  moreover from b have "length f \<le> length (b @ butlast f)"
    by (cases b) simp_all
  ultimately show ?thesis
    by (rule prefix_shorter)
qed

lemma no_opening_before:
  assumes no: "\<not> has_opening tag (pre @ butlast (fence @ tag))"
    and pre: "pre = a @ b" and b: "b \<noteq> []"
  shows "\<not> prefix (fence @ tag) (b @ (fence @ tag) @ rest)"
proof
  assume p: "prefix (fence @ tag) (b @ (fence @ tag) @ rest)"
  have "fence @ tag \<noteq> []" by (simp add: fence_def)
  from prefix_butlast [OF this b p] have "prefix (fence @ tag) (b @ butlast (fence @ tag))" .
  moreover from no pre have "\<not> has_opening tag (b @ butlast (fence @ tag))"
    using not_has_opening_drop [of tag a "b @ butlast (fence @ tag)"] by simp
  ultimately show False
    using not_has_opening_prefix by blast
qed

lemma not_has_fence_suffix:
  assumes "suffix b s" and "\<not> has_fence s"
  shows "\<not> has_fence b"
proof -
  from assms(1) obtain a where "s = a @ b" by (auto simp: suffix_def)
  with assms(2) show ?thesis using not_has_fence_drop by blast
qed

lemma suffix_drop_both:
  assumes "suffix b s"
  shows "suffix (drop n b) (drop n s)"
proof -
  from assms obtain a where s: "s = a @ b" by (auto simp: suffix_def)
  have "drop n b = drop (n - (n - length a)) (drop (n - length a) b)"
    by simp
  then have "suffix (drop n b) (drop (n - length a) b)"
    by (metis suffix_drop)
  then have "suffix (drop n b) (drop n a @ drop (n - length a) b)"
    by (rule suffix_appendI)
  with s show ?thesis by simp
qed

lemma replace_fenced_no_close:
  assumes nf: "\<not> has_fence (drop (length (fence @ tag)) s)"
  shows "replace_fenced tag s = s"
proof -
  have "replace_fenced tag (s @ []) = s @ replace_fenced tag []"
  proof (rule replace_fenced_keep)
    fix a b assume "s = a @ b" "b \<noteq> []"
    then have "suffix b s" by (simp add: suffix_def)
    then have "suffix (drop (length (fence @ tag)) b) (drop (length (fence @ tag)) s)"
      by (rule suffix_drop_both)
    with nf have "\<not> has_fence (drop (length (fence @ tag)) b)"
      using not_has_fence_suffix by blast
    then show "match_at tag (b @ []) = None"
      by (simp add: match_at_None region_here_def)
  qed
  then show ?thesis by (simp add: replace_fenced_Nil)
qed

lemma find_close_next:
  "\<not> has_fence (m @ take 2 fence) \<Longrightarrow> find_close (m @ fence @ r) = Some r"
proof (induction m)
  case Nil
  then show ?case by (simp add: fence_def)
next
  case (Cons c m)
  then have np: "\<not> prefix fence ((c # m) @ take 2 fence)" and nf: "\<not> has_fence (m @ take 2 fence)"
    by simp_all
  have "\<not> prefix fence ((c # m) @ fence @ r)"
  proof
    assume "prefix fence ((c # m) @ fence @ r)"
    then have "prefix fence (((c # m) @ take 2 fence) @ (drop 2 fence @ r))"
      by (simp add: fence_def)
    moreover have "length fence \<le> length ((c # m) @ take 2 fence)"
      by (simp add: fence_def)
    ultimately have "prefix fence ((c # m) @ take 2 fence)"
      by (rule prefix_shorter)
    with np show False by simp
  qed
  with Cons.IH [OF nf] show ?case by simp
qed

lemma count_regions_append_ge: "count_regions tag s \<le> count_regions tag (pre @ s)"
  by (induction pre) auto

lemma count_regions_same:
  "count_regions tag (pre @ s) = count_regions tag s \<Longrightarrow> pre = a @ b \<Longrightarrow> b \<noteq> []
     \<Longrightarrow> \<not> region_here tag (b @ s)"
proof (induction pre arbitrary: a)
  case Nil
  then show ?case by simp
next
  case (Cons c pre)
  have ge: "count_regions tag s \<le> count_regions tag (pre @ s)"
    by (rule count_regions_append_ge)
  with Cons.prems(1) have same: "count_regions tag (pre @ s) = count_regions tag s"
    and here: "\<not> region_here tag (c # pre @ s)"
    by (auto split: if_splits)
  show ?case
  proof (cases a)
    case Nil
    with Cons.prems(2) have "b = c # pre" by simp
    with here show ?thesis by simp
  next
    case (Cons x a')
    with Cons.prems(2) have "pre = a' @ b" by simp
    from Cons.IH [OF same this Cons.prems(3)] show ?thesis .
  qed
qed

lemma replace_fenced_no_region:
  assumes z: "count_regions tag s = 0"
  shows "replace_fenced tag s = s"
proof -
  have "replace_fenced tag (s @ []) = s @ replace_fenced tag []"
  proof (rule replace_fenced_keep)
    fix a b assume ab: "s = a @ b" "b \<noteq> []"
    from z have "count_regions tag (s @ []) = count_regions tag []" by simp
    from count_regions_same [OF this ab] show "match_at tag (b @ []) = None"
      by (simp add: match_at_None)
  qed
  then show ?thesis by (simp add: replace_fenced_Nil)
qed


declare scan_reaches.simps [simp del]

lemma length_fence: "length fence = 3"
  by (simp add: fence_def)

lemma find_close_index:
  "find_close s = (if has_fence s then Some (drop 3 (drop (fence_index s) s)) else None)"
  by (induction s) (auto simp del: drop_drop)

lemma has_fence_append: "has_fence a \<Longrightarrow> has_fence (a @ b)"
proof (induction a)
  case Nil
  then show ?case by simp
next
  case (Cons c cs)
  show ?case
  proof (cases "prefix fence (c # cs)")
    case True
    then have "prefix fence ((c # cs) @ b)"
      using prefix_prefix by blast
    then show ?thesis by simp
  next
    case False
    with Cons show ?thesis by simp
  qed
qed

lemma fence_index_cut:
  "has_fence (a @ x) \<Longrightarrow> fence_index (a @ x) + 3 \<le> length a
     \<Longrightarrow> has_fence a \<and> fence_index a = fence_index (a @ x)"
proof (induction a)
  case Nil
  then show ?case by simp
next
  case (Cons c cs)
  show ?case
  proof (cases "prefix fence ((c # cs) @ x)")
    case True
    moreover from Cons.prems(2) have "length fence \<le> length (c # cs)"
      by (simp add: fence_def)
    ultimately have "prefix fence (c # cs)"
      by (rule prefix_shorter)
    with True show ?thesis by simp
  next
    case False
    then have n: "\<not> prefix fence (c # cs)"
      using prefix_prefix by blast
    from False Cons.prems have "has_fence (cs @ x)" and "fence_index (cs @ x) + 3 \<le> length cs"
      by simp_all
    from Cons.IH [OF this] n False show ?thesis by simp
  qed
qed

lemma match_at_region:
  "match_at tag s = (if region_here tag s then Some (drop (region_length tag s) s) else None)"
proof -
  let ?k = "length (fence @ tag)"
  have "drop (region_length tag s) s = drop 3 (drop (fence_index (drop ?k s)) (drop ?k s))"
    unfolding region_length_def length_fence by (simp only: drop_drop ac_simps)
  then show ?thesis
    by (simp only: match_at_def region_here_def find_close_index split: if_splits) simp
qed

lemma region_here_append: "region_here tag s \<Longrightarrow> region_here tag (s @ x)"
proof -
  assume r: "region_here tag s"
  then have p: "prefix (fence @ tag) s" and h: "has_fence (drop (length (fence @ tag)) s)"
    by (simp_all add: region_here_def)
  from p have "length (fence @ tag) \<le> length s"
    by (rule prefix_length_le)
  then have "drop (length (fence @ tag)) (s @ x) = drop (length (fence @ tag)) s @ x"
    by simp
  with h have "has_fence (drop (length (fence @ tag)) (s @ x))"
    by (simp add: has_fence_append)
  moreover from p have "prefix (fence @ tag) (s @ x)"
    using prefix_prefix by blast
  ultimately show ?thesis
    by (simp add: region_here_def)
qed

lemma region_cut:
  assumes r: "region_here tag (p @ x)" and n: "region_length tag (p @ x) \<le> length p"
  shows "region_here tag p \<and> region_length tag p = region_length tag (p @ x)"
proof -
  let ?k = "length (fence @ tag)"
  from n have k: "?k \<le> length p"
    by (simp add: region_length_def)
  from r have "prefix (fence @ tag) (p @ x)" and h: "has_fence (drop ?k (p @ x))"
    by (simp_all add: region_here_def)
  with k have pp: "prefix (fence @ tag) p"
    using prefix_shorter by blast
  from k have d: "drop ?k (p @ x) = drop ?k p @ x"
    by simp
  from n k have "fence_index (drop ?k p @ x) + 3 \<le> length (drop ?k p)"
    unfolding region_length_def d by (simp add: fence_def)
  with h d have "has_fence (drop ?k p) \<and> fence_index (drop ?k p) = fence_index (drop ?k p @ x)"
    using fence_index_cut [of "drop ?k p" x] by simp
  with pp d show ?thesis
    by (simp add: region_here_def region_length_def)
qed

lemma replace_fenced_scan:
  "scan_reaches tag pre rest
     \<Longrightarrow> replace_fenced tag (pre @ rest) = replace_fenced tag pre @ replace_fenced tag rest"
proof (induction tag pre rest rule: scan_reaches.induct)
  case (1 tag rest)
  then show ?case by (simp add: replace_fenced_Nil)
next
  case (2 tag c cs rest)
  let ?n = "region_length tag (c # cs @ rest)"
  show ?case
  proof (cases "region_here tag (c # cs @ rest)")
    case True
    with "2.prems" have n: "?n \<le> length (c # cs)"
      and s: "scan_reaches tag (drop ?n (c # cs)) rest"
      by (simp_all add: scan_reaches.simps split: if_splits)
    from "2.IH"(1) [OF True n s]
    have ih: "replace_fenced tag (drop ?n (c # cs) @ rest)
      = replace_fenced tag (drop ?n (c # cs)) @ replace_fenced tag rest" .
    from True n have c: "region_here tag (c # cs) \<and> region_length tag (c # cs) = ?n"
      using region_cut [of tag "c # cs" rest] by simp
    have d: "drop ?n ((c # cs) @ rest) = drop ?n (c # cs) @ rest"
      using n by (subst drop_append) simp
    from True have "match_at tag ((c # cs) @ rest) = Some (drop ?n ((c # cs) @ rest))"
      by (simp add: match_at_region)
    then have "replace_fenced tag ((c # cs) @ rest) = replace_fenced tag (drop ?n ((c # cs) @ rest))"
      by (rule replace_fenced_match)
    with d have "replace_fenced tag ((c # cs) @ rest) = replace_fenced tag (drop ?n (c # cs) @ rest)"
      by (simp only:)
    moreover from c have "match_at tag (c # cs) = Some (drop ?n (c # cs))"
      by (simp add: match_at_region)
    then have "replace_fenced tag (c # cs) = replace_fenced tag (drop ?n (c # cs))"
      by (rule replace_fenced_match)
    ultimately show ?thesis using ih by simp
  next
    case False
    with "2.prems" have s: "scan_reaches tag cs rest"
      by (simp add: scan_reaches.simps)
    from "2.IH"(2) [OF False s]
    have ih: "replace_fenced tag (cs @ rest) = replace_fenced tag cs @ replace_fenced tag rest" .
    from False have "\<not> region_here tag (c # cs)"
      using region_here_append [of tag "c # cs" rest] by auto
    then have "replace_fenced tag (c # cs) = c # replace_fenced tag cs"
      by (simp add: replace_fenced_copy match_at_None)
    moreover from False have "replace_fenced tag ((c # cs) @ rest) = c # replace_fenced tag (cs @ rest)"
      by (simp add: replace_fenced_copy match_at_None)
    ultimately show ?thesis using ih by simp
  qed
qed

lemma prefix_take_right:
  assumes "prefix xs (b @ s)" and "length xs \<le> length b + n"
  shows "prefix xs (b @ take n s)"
proof -
  from assms(1) obtain zs where z: "b @ s = xs @ zs"
    by (auto simp: prefix_def)
  have "take (length xs) (b @ take n s) = take (length xs) (b @ s)"
    using assms(2) by (simp add: min_def)
  also have "\<dots> = take (length xs) (xs @ zs)"
    by (simp only: z)
  also have "\<dots> = xs"
    by simp
  finally have "xs = take (length xs) (b @ take n s)"
    by simp
  then show ?thesis
    by (metis take_is_prefix)
qed

lemma replace_fenced_block_kept:
  assumes no: "\<not> has_opening tag (block @ take (length tag + 2) suf)"
  shows "replace_fenced tag (block @ suf) = block @ replace_fenced tag suf"
proof (rule replace_fenced_keep)
  fix a b assume ab: "block = a @ b" "b \<noteq> []"
  from no ab(1) have "\<not> has_opening tag (b @ take (length tag + 2) suf)"
    using not_has_opening_drop [of tag a "b @ take (length tag + 2) suf"] by simp
  then have np: "\<not> prefix (fence @ tag) (b @ take (length tag + 2) suf)"
    by (rule not_has_opening_prefix)
  have "\<not> prefix (fence @ tag) (b @ suf)"
  proof
    assume "prefix (fence @ tag) (b @ suf)"
    moreover from ab(2) have "length (fence @ tag) \<le> length b + (length tag + 2)"
      by (cases b) (simp_all add: fence_def)
    ultimately have "prefix (fence @ tag) (b @ take (length tag + 2) suf)"
      by (rule prefix_take_right)
    with np show False by simp
  qed
  then show "match_at tag (b @ suf) = None"
    by (simp add: match_at_def)
qed

text \<open>
  Claim C4, as stated, fails: the expression \<open>```button[\s\S]*?```\<close> asks for the tag as a
  prefix of what follows the three backticks, not as the whole info string. A block tagged
  \<open>buttons\<close> is removed by the replacement for the tag \<open>button\<close>.
\<close>

theorem replace_fenced_longer_tag_removed:
  "js ''buttons'' \<noteq> js ''button''
   \<and> replace_fenced (js ''button'') (js ''a```buttons\<newline>x\<newline>```b'') = js ''ab''"
  by code_simp

text \<open>
  A block stays only if it is a block of the text, and not a piece of a region of the tag: in
  the first text the three backticks in front of \<open>js\<close> close the region that \<open>button\<close> opens, and
  in the second text the three backticks behind \<open>x\<close> are immediately followed by the tag and
  open a region.
\<close>

lemma replace_fenced_block_taken:
  "\<not> scan_reaches (js ''button'') (js ''```button x'') (js ''```js y```'')
   \<and> replace_fenced (js ''button'') (js ''```button x'' @ js ''```js y```'') = js ''js y```''
   \<and> has_opening (js ''button'') (js ''```js x```'' @ take (length (js ''button'') + 2) (js ''button y```''))
   \<and> replace_fenced (js ''button'') (js ''```js x```'' @ js ''button y```'') = js ''```js x''"
  by code_simp

text \<open>
  Claim C4, amended: the replacement removes a fenced region only when its opening is three
  backticks immediately followed by text that begins with the tag. In a text
  \<open>pre @ block @ suf\<close>, let the search for the regions of the tag arrive at the start of
  \<open>block\<close>, and let no three backticks that start in \<open>block\<close> be immediately followed by the
  tag: then \<open>block\<close> is left untouched, whatever is removed in front of it and behind it.
  This is so for every well-formed fenced block whose info string does not begin with the
  tag, when it is not a piece of a region of the tag and its closing fence is not followed
  by the tag. With \<open>pre\<close> and \<open>suf\<close> empty: a text in which three backticks are nowhere
  immediately followed by the tag is returned unchanged.
\<close>

theorem replace_fenced_other_blocks_kept:
  assumes "scan_reaches tag pre (block @ suf)"
    and "\<not> has_opening tag (block @ take (length tag + 2) suf)"
  shows "replace_fenced tag (pre @ block @ suf)
    = replace_fenced tag pre @ block @ replace_fenced tag suf"
  using replace_fenced_scan [OF assms(1)] replace_fenced_block_kept [OF assms(2)]
  by simp

theorem replace_fenced_other_blocks_kept_witness:
  "scan_reaches (js ''button'') (js ''```button\<newline>A\<newline>```\<newline>'')
     (js ''```js\<newline>code\<newline>```'' @ js ''\<newline>```buttons\<newline>B\<newline>```\<newline>end'')
   \<and> \<not> has_opening (js ''button'')
       (js ''```js\<newline>code\<newline>```''
          @ take (length (js ''button'') + 2) (js ''\<newline>```buttons\<newline>B\<newline>```\<newline>end''))
   \<and> replace_fenced (js ''button'')
       (js ''```button\<newline>A\<newline>```\<newline>'' @ js ''```js\<newline>code\<newline>```''
          @ js ''\<newline>```buttons\<newline>B\<newline>```\<newline>end'')
     = js ''\<newline>'' @ js ''```js\<newline>code\<newline>```'' @ js ''\<newline>\<newline>end''"
proof -
  let ?tag = "js ''button''" and ?pre = "js ''```button\<newline>A\<newline>```\<newline>''"
  let ?block = "js ''```js\<newline>code\<newline>```''"
  let ?suf = "js ''\<newline>```buttons\<newline>B\<newline>```\<newline>end''"
  have h1: "scan_reaches ?tag ?pre (?block @ ?suf)"
    by code_simp
  have h2: "\<not> has_opening ?tag (?block @ take (length ?tag + 2) ?suf)"
    by code_simp
  have e1: "replace_fenced ?tag ?pre = js ''\<newline>''"
    by code_simp
  have e2: "replace_fenced ?tag ?suf = js ''\<newline>\<newline>end''"
    by code_simp
  from replace_fenced_other_blocks_kept [OF h1 h2]
  have "replace_fenced ?tag (?pre @ ?block @ ?suf) = js ''\<newline>'' @ ?block @ js ''\<newline>\<newline>end''"
    by (simp only: e1 e2)
  with h1 h2 show ?thesis
    by blast
qed

text \<open>
  Claim C8, as stated, fails: an opening fence without a later fence is not left unchanged
  when an earlier opening fence is still open, since its three backticks then close the
  earlier region.
\<close>

theorem unterminated_fence_consumed:
  "\<not> has_fence (js '' y'')
   \<and> replace_fenced (js ''button'') (js ''```button x'' @ fence @ js ''button'' @ js '' y'')
       = js ''button y''"
  by code_simp

text \<open>
  Claim C8, amended: take a text in which an opening fence has no later occurrence of three
  backticks. When the search for the regions of the tag arrives at that fence, that is, when
  its three backticks neither close a region that opened earlier nor lie inside one, the
  fence and everything after it are left unchanged, whatever is removed in front of them. In
  particular, when no opening fence starts before that fence, the whole text is returned
  unchanged. In every case everything behind the three backticks of that fence is left
  unchanged: the tag and the text after it are the end of the result. (For this last part
  the tag is not empty and contains no backtick, as \<open>button\<close> and \<open>tasks\<close>.)
\<close>

theorem unterminated_fence_kept:
  assumes rest: "\<not> has_fence rest"
  shows "(scan_reaches tag pre (fence @ tag @ rest)
          \<longrightarrow> replace_fenced tag (pre @ fence @ tag @ rest)
                = replace_fenced tag pre @ fence @ tag @ rest)
     \<and> (\<not> has_opening tag (pre @ butlast (fence @ tag))
          \<longrightarrow> replace_fenced tag (pre @ fence @ tag @ rest) = pre @ fence @ tag @ rest)
     \<and> (tag \<noteq> [] \<and> backtick \<notin> set tag
          \<longrightarrow> suffix (tag @ rest) (replace_fenced tag (pre @ fence @ tag @ rest)))"
proof (intro conjI impI)
  have k: "replace_fenced tag ((fence @ tag) @ rest) = (fence @ tag) @ rest"
    using rest by (intro replace_fenced_no_close) simp
  {
    assume "scan_reaches tag pre (fence @ tag @ rest)"
    from replace_fenced_scan [OF this] k
    show "replace_fenced tag (pre @ fence @ tag @ rest)
      = replace_fenced tag pre @ fence @ tag @ rest"
      by simp
  next
    assume no: "\<not> has_opening tag (pre @ butlast (fence @ tag))"
    have "replace_fenced tag (pre @ ((fence @ tag) @ rest))
      = pre @ replace_fenced tag ((fence @ tag) @ rest)"
    proof (rule replace_fenced_keep)
      fix a b assume "pre = a @ b" "b \<noteq> []"
      with no have "\<not> prefix (fence @ tag) (b @ (fence @ tag) @ rest)"
        by (rule no_opening_before)
      then show "match_at tag (b @ (fence @ tag) @ rest) = None"
        by (simp add: match_at_def)
    qed
    with k show "replace_fenced tag (pre @ fence @ tag @ rest) = pre @ fence @ tag @ rest"
      by simp
  next
    assume tag: "tag \<noteq> [] \<and> backtick \<notin> set tag"
    with rest have "\<not> has_fence (tag @ rest)"
      by (simp add: has_fence_skip)
    moreover from tag have "tag @ rest = [] \<or> hd (tag @ rest) \<noteq> backtick"
      by (cases tag) auto
    ultimately have "suffix (tag @ rest) (replace_fenced tag ((pre @ fence) @ tag @ rest))"
      by (rule replace_fenced_tail)
    then show "suffix (tag @ rest) (replace_fenced tag (pre @ fence @ tag @ rest))"
      by simp
  }
qed

theorem unterminated_fence_kept_witness:
  "\<not> has_fence (js ''\<newline>Do X'')
   \<and> scan_reaches (js ''button'') (js ''```button\<newline>A\<newline>```\<newline># T\<newline>'')
       (fence @ js ''button'' @ js ''\<newline>Do X'')
   \<and> replace_fenced (js ''button'')
       (js ''```button\<newline>A\<newline>```\<newline># T\<newline>'' @ fence @ js ''button'' @ js ''\<newline>Do X'')
     = js ''\<newline># T\<newline>'' @ fence @ js ''button'' @ js ''\<newline>Do X''
   \<and> \<not> has_opening (js ''button'') (js ''# T\<newline>'' @ butlast (fence @ js ''button''))
   \<and> replace_fenced (js ''button'') (js ''# T\<newline>'' @ fence @ js ''button'' @ js ''\<newline>Do X'')
       = js ''# T\<newline>'' @ fence @ js ''button'' @ js ''\<newline>Do X''
   \<and> js ''button'' \<noteq> [] \<and> backtick \<notin> set (js ''button'')
   \<and> suffix (js ''button'' @ js ''\<newline>Do X'')
        (replace_fenced (js ''button'')
           (js ''```button x'' @ fence @ js ''button'' @ js ''\<newline>Do X''))"
proof -
  let ?tag = "js ''button''" and ?rest = "js ''\<newline>Do X''"
  let ?pre = "js ''```button\<newline>A\<newline>```\<newline># T\<newline>''"
  have h1: "\<not> has_fence ?rest"
    by code_simp
  have h2: "scan_reaches ?tag ?pre (fence @ ?tag @ ?rest)"
    by code_simp
  have h3: "\<not> has_opening ?tag (js ''# T\<newline>'' @ butlast (fence @ ?tag))"
    by code_simp
  have h4: "?tag \<noteq> [] \<and> backtick \<notin> set ?tag"
    by code_simp
  have e: "replace_fenced ?tag ?pre = js ''\<newline># T\<newline>''"
    by code_simp
  from unterminated_fence_kept [OF h1, of ?tag ?pre] h2
  have "replace_fenced ?tag (?pre @ fence @ ?tag @ ?rest)
    = replace_fenced ?tag ?pre @ fence @ ?tag @ ?rest"
    by blast
  then have c1: "replace_fenced ?tag (?pre @ fence @ ?tag @ ?rest)
    = js ''\<newline># T\<newline>'' @ fence @ ?tag @ ?rest"
    by (simp only: e)
  from unterminated_fence_kept [OF h1, of ?tag "js ''# T\<newline>''"] h3
  have c2: "replace_fenced ?tag (js ''# T\<newline>'' @ fence @ ?tag @ ?rest)
    = js ''# T\<newline>'' @ fence @ ?tag @ ?rest"
    by blast
  from unterminated_fence_kept [OF h1, of ?tag "js ''```button x''"] h4
  have c3: "suffix (?tag @ ?rest)
    (replace_fenced ?tag (js ''```button x'' @ fence @ ?tag @ ?rest))"
    by blast
  from h1 h2 c1 h3 c2 h4 c3 show ?thesis
    by blast
qed

text \<open>
  Claim C9: a text \<open>pre @ block @ suf\<close> whose block opens with three backticks and the tag
  and closes at the next three backticks, and in which the block is the only fenced region
  of the tag (the text holds exactly one), loses exactly the block: the result is
  \<open>pre @ suf\<close>.
\<close>

theorem single_block_removed:
  assumes wf0: "closes_at_next_fence body"
    and one: "count_regions tag (pre @ fence @ tag @ body @ fence @ suf) = 1"
  shows "replace_fenced tag (pre @ fence @ tag @ body @ fence @ suf) = pre @ suf"
proof -
  from wf0 have wf: "\<not> has_fence (body @ take 2 fence)"
    by (simp add: closes_at_next_fence_def)
  define s where "s = (fence @ tag) @ body @ fence @ suf"
  have fc: "find_close (body @ fence @ suf) = Some suf"
    using wf by (rule find_close_next)
  then have m: "match_at tag s = Some suf"
    by (simp add: match_at_def s_def)
  then have here: "region_here tag s"
    using match_at_None [of tag s] by simp
  obtain c s' where cs: "s = c # s'"
    by (cases s) (auto simp: s_def fence_def)
  from one have one': "count_regions tag (pre @ s) = 1"
    by (simp add: s_def)
  from here cs have "count_regions tag s = 1 + count_regions tag s'"
    by simp
  moreover have "count_regions tag s \<le> count_regions tag (pre @ s)"
    by (rule count_regions_append_ge)
  ultimately have same: "count_regions tag (pre @ s) = count_regions tag s"
    and zero: "count_regions tag s' = 0"
    using one' by linarith+
  have "suffix suf s'"
  proof -
    from cs have "s' = tl s" by simp
    also have "\<dots> = tl ((fence @ tag) @ body @ fence) @ suf"
      by (simp add: s_def fence_def)
    finally show ?thesis by (simp add: suffix_def)
  qed
  then obtain u where "s' = u @ suf" by (auto simp: suffix_def)
  with zero count_regions_append_ge [of tag suf u] have "count_regions tag suf = 0"
    by simp
  then have suf: "replace_fenced tag suf = suf"
    by (rule replace_fenced_no_region)
  have "replace_fenced tag (pre @ s) = pre @ replace_fenced tag s"
  proof (rule replace_fenced_keep)
    fix a b assume "pre = a @ b" "b \<noteq> []"
    from count_regions_same [OF same this] show "match_at tag (b @ s) = None"
      by (simp add: match_at_None)
  qed
  also have "replace_fenced tag s = replace_fenced tag suf"
    using m by (rule replace_fenced_match)
  finally show ?thesis
    using suf by (simp add: s_def)
qed

theorem single_block_removed_witness:
  "closes_at_next_fence (js ''\<newline>Do X\<newline>'')
   \<and> count_regions (js ''button'')
        (js ''# T\<newline>'' @ fence @ js ''button'' @ js ''\<newline>Do X\<newline>'' @ fence @ js ''\<newline>text'') = 1
   \<and> replace_fenced (js ''button'')
        (js ''# T\<newline>'' @ fence @ js ''button'' @ js ''\<newline>Do X\<newline>'' @ fence @ js ''\<newline>text'')
       = js ''# T\<newline>'' @ js ''\<newline>text''"
proof -
  have h1: "closes_at_next_fence (js ''\<newline>Do X\<newline>'')"
    by code_simp
  have h2: "count_regions (js ''button'')
        (js ''# T\<newline>'' @ fence @ js ''button'' @ js ''\<newline>Do X\<newline>'' @ fence @ js ''\<newline>text'') = 1"
    by code_simp
  from single_block_removed [OF h1 h2] h1 h2 show ?thesis
    by blast
qed

section \<open>Properties of the removal of empty sections\<close>

declare scan_section.simps [simp del] section_loop.simps [simp del]

lemma all_dropWhile: "(\<forall>x\<in>set (dropWhile P s). P x) \<longleftrightarrow> (\<forall>x\<in>set s. P x)"
proof
  assume a: "\<forall>x\<in>set (dropWhile P s). P x"
  have "dropWhile P s = []"
  proof (rule ccontr)
    assume ne: "dropWhile P s \<noteq> []"
    then have "\<not> P (hd (dropWhile P s))" by (rule hd_dropWhile)
    moreover from ne have "hd (dropWhile P s) \<in> set (dropWhile P s)" by simp
    ultimately show False using a by blast
  qed
  then show "\<forall>x\<in>set s. P x" by (simp add: dropWhile_eq_Nil_conv)
next
  assume "\<forall>x\<in>set s. P x"
  then show "\<forall>x\<in>set (dropWhile P s). P x" by (auto dest: set_dropWhileD)
qed

lemma trim_Nil_iff: "trim s = [] \<longleftrightarrow> (\<forall>c\<in>set s. is_ws c)"
  by (simp add: trim_def dropWhile_eq_Nil_conv all_dropWhile)

lemma trim_content: "trim s \<noteq> [] \<longleftrightarrow> has_content s"
  by (auto simp: trim_Nil_iff has_content_def list_ex_iff)

lemma scan_section_eq:
  "j \<le> length lines \<Longrightarrow>
   scan_section lines j hc =
     (j + length (takeWhile (\<lambda>x. \<not> is_heading x) (drop j lines)),
      hc \<or> list_ex has_content (takeWhile (\<lambda>x. \<not> is_heading x) (drop j lines)))"
proof (induction lines j hc rule: scan_section.induct)
  case (1 lines j hasContent)
  show ?case
  proof (cases "j < length lines \<and> \<not> is_heading (lines ! j)")
    case True
    then have d: "drop j lines = lines ! j # drop (j + 1) lines"
      by (simp add: Cons_nth_drop_Suc)
    from True have "j + 1 \<le> length lines" by simp
    from 1(1) [OF True this] True d show ?thesis
      by (subst scan_section.simps) (auto simp: trim_content)
  next
    case False
    show ?thesis
    proof (cases "j < length lines")
      case True
      with False have h: "is_heading (lines ! j)" by simp
      from True have "drop j lines = lines ! j # drop (j + 1) lines"
        by (simp add: Cons_nth_drop_Suc)
      with h False show ?thesis
        by (subst scan_section.simps) simp
    next
      case False
      with 1(2) have "drop j lines = []" by simp
      with False show ?thesis
        by (subst scan_section.simps) simp
    qed
  qed
qed

lemma prune_sections_body:
  "prune_sections ls =
     takeWhile (\<lambda>x. \<not> is_heading x) ls @ prune_sections (dropWhile (\<lambda>x. \<not> is_heading x) ls)"
  by (induction ls) simp_all

lemma section_loop_eq:
  "i \<le> length lines \<Longrightarrow> section_loop lines i result = result @ prune_sections (drop i lines)"
proof (induction lines i result rule: section_loop.induct)
  case (1 lines i result)
  show ?case
  proof (cases "i < length lines")
    case False
    with 1(4) have "drop i lines = []" by simp
    with False show ?thesis
      by (subst section_loop.simps) simp
  next
    case True
    then have d: "drop i lines = lines ! i # drop (i + 1) lines"
      by (simp add: Cons_nth_drop_Suc)
    let ?nh = "\<lambda>x. \<not> is_heading x"
    let ?ls = "drop (i + 1) lines"
    from True have le: "i + 1 \<le> length lines" by simp
    show ?thesis
    proof (cases "is_heading (lines ! i)")
      case False
      from 1(3) [OF True refl False le] True False d show ?thesis
        by (subst section_loop.simps) simp
    next
      case h: True
      define j where "j = i + 1 + length (takeWhile ?nh ?ls)"
      define hc where "hc = list_ex has_content (takeWhile ?nh ?ls)"
      have sc: "scan_section lines (i + 1) False = (j, hc)"
        using scan_section_eq [OF le, of False] by (simp add: j_def hc_def)
      have jl: "j \<le> length lines"
      proof -
        have "length (takeWhile ?nh ?ls) \<le> length ?ls"
          by (rule length_takeWhile_le)
        with le show ?thesis by (simp add: j_def)
      qed
      have dj: "drop j lines = dropWhile ?nh ?ls"
      proof -
        have "drop j lines = drop (length (takeWhile ?nh ?ls)) ?ls"
          by (simp add: j_def add.commute)
        then show ?thesis by (simp add: dropWhile_eq_drop)
      qed
      show ?thesis
      proof (cases hc)
        case True
        have "section_loop lines (i + 1) (result @ [lines ! i])
            = (result @ [lines ! i]) @ prune_sections ?ls"
          using 1(2) [of "lines ! i" j hc] \<open>i < length lines\<close> h sc le True by simp
        moreover have "section_loop lines i result
            = section_loop lines (i + 1) (result @ [lines ! i])"
          using \<open>i < length lines\<close> h sc True by (subst section_loop.simps) simp
        moreover have "prune_sections (drop i lines)
            = lines ! i # takeWhile ?nh ?ls @ prune_sections (dropWhile ?nh ?ls)"
          using d h True by (simp add: hc_def Let_def)
        ultimately show ?thesis
          using prune_sections_body [of ?ls] by simp
      next
        case False
        have "section_loop lines (j - 1 + 1) result = result @ prune_sections (drop (j - 1 + 1) lines)"
          using 1(1) [of "lines ! i" j hc] \<open>i < length lines\<close> h sc False jl
          by (simp add: j_def)
        moreover have "j - 1 + 1 = j"
          by (simp add: j_def)
        moreover have "section_loop lines i result = section_loop lines (j - 1 + 1) result"
          using \<open>i < length lines\<close> h sc False by (subst section_loop.simps) simp
        moreover have "prune_sections (drop i lines) = prune_sections (dropWhile ?nh ?ls)"
          using d h False by (simp add: hc_def Let_def)
        ultimately show ?thesis
          using dj by simp
      qed
    qed
  qed
qed

lemma removeEmptySections_refines:
  "removeEmptySections text = join_lines (prune_sections (split_lines text))"
  by (simp add: removeEmptySections_def section_loop_eq)

lemma heading_has_content: "is_heading l \<Longrightarrow> has_content l"
proof -
  assume h: "is_heading l"
  then have "takeWhile (\<lambda>c. c = hash) l \<noteq> []"
    by (auto simp: is_heading_def split: list.splits)
  then have "hash \<in> set l"
    by (cases l) (auto split: if_splits)
  moreover have "\<not> is_ws hash"
    by (simp add: is_ws_def hash_def)
  ultimately show ?thesis
    by (auto simp: has_content_def list_ex_iff)
qed

lemma prune_sections_append:
  assumes s: "s = [] \<or> is_heading (hd s)"
  shows "prune_sections (pre @ s) = prune_sections pre @ prune_sections s"
proof (induction pre rule: prune_sections.induct)
  case 1
  then show ?case by simp
next
  case (2 l ls)
  let ?nh = "\<lambda>x. \<not> is_heading x"
  from s have tw: "takeWhile ?nh s = []"
    by (cases s) auto
  from s have dw: "dropWhile ?nh s = s"
    by (cases s) auto
  have t: "takeWhile ?nh (ls @ s) = takeWhile ?nh ls"
  proof (cases "\<forall>x\<in>set ls. ?nh x")
    case True
    then have tl: "takeWhile ?nh ls = ls" by simp
    from True show ?thesis by (simp add: takeWhile_append tw tl)
  next
    case False
    then show ?thesis by (auto simp: takeWhile_append)
  qed
  have d: "dropWhile ?nh (ls @ s) = dropWhile ?nh ls @ s"
  proof (cases "\<forall>x\<in>set ls. ?nh x")
    case True
    then have dl: "dropWhile ?nh ls = []" by simp
    from True show ?thesis by (simp add: dropWhile_append dw dl)
  next
    case False
    then show ?thesis by (auto simp: dropWhile_append)
  qed
  show ?case
  proof (cases "is_heading l")
    case False
    with 2(3) show ?thesis by simp
  next
    case True
    show ?thesis
    proof (cases "list_ex has_content (takeWhile ?nh ls)")
      case c: True
      from 2(1) [OF True refl refl c] True c t d show ?thesis
        by (simp add: Let_def)
    next
      case c: False
      from 2(2) [OF True refl refl c] True c t d show ?thesis
        by (simp add: Let_def)
    qed
  qed
qed

lemma prune_sections_empty_section:
  assumes h: "is_heading h" and b: "\<not> list_ex has_content blanks"
  shows "prune_sections (h # blanks) = []"
proof -
  from b have "\<forall>x\<in>set blanks. \<not> is_heading x"
    using heading_has_content by (auto simp: list_ex_iff)
  then have tw: "takeWhile (\<lambda>x. \<not> is_heading x) blanks = blanks"
    and dw: "dropWhile (\<lambda>x. \<not> is_heading x) blanks = []"
    by simp_all
  from h b show ?thesis by (simp add: Let_def tw dw)
qed

lemma prune_sections_kept_section:
  assumes h: "is_heading h" and nh: "\<not> list_ex is_heading body" and c: "list_ex has_content body"
  shows "prune_sections (h # body) = h # body"
proof -
  from nh have "\<forall>x\<in>set body. \<not> is_heading x"
    by (auto simp: list_ex_iff)
  then have tw: "takeWhile (\<lambda>x. \<not> is_heading x) body = body"
    and dw: "dropWhile (\<lambda>x. \<not> is_heading x) body = []"
    by simp_all
  from h c show ?thesis by (simp add: Let_def tw dw)
qed

text \<open>
  Claim C5: the loop of \<open>removeEmptySections\<close> computes the pruning of sections on the lines
  of the text. A heading followed only by lines without content up to the end of the text
  goes away with those lines, and what precedes is pruned as if the text ended there. A
  heading with a line with content before the next heading or the end stays, verbatim and
  in order, with all the lines of its section. The level of a heading plays no role.
\<close>

theorem removeEmptySections_prunes:
  "removeEmptySections text = join_lines (prune_sections (split_lines text))
   \<and> (is_heading h \<and> \<not> list_ex has_content blanks
        \<longrightarrow> prune_sections (pre @ h # blanks) = prune_sections pre)
   \<and> (is_heading h \<and> \<not> list_ex is_heading body \<and> list_ex has_content body
        \<and> (post = [] \<or> is_heading (hd post))
        \<longrightarrow> prune_sections (pre @ h # body @ post)
            = prune_sections pre @ h # body @ prune_sections post)"
proof (intro conjI impI)
  show "removeEmptySections text = join_lines (prune_sections (split_lines text))"
    by (rule removeEmptySections_refines)
next
  assume a: "is_heading h \<and> \<not> list_ex has_content blanks"
  have "prune_sections (pre @ h # blanks) = prune_sections pre @ prune_sections (h # blanks)"
    using a by (intro prune_sections_append) simp
  moreover have "prune_sections (h # blanks) = []"
    using a by (intro prune_sections_empty_section) simp_all
  ultimately show "prune_sections (pre @ h # blanks) = prune_sections pre"
    by (simp only: append_Nil2)
next
  assume a: "is_heading h \<and> \<not> list_ex is_heading body \<and> list_ex has_content body
    \<and> (post = [] \<or> is_heading (hd post))"
  have 1: "prune_sections (pre @ (h # body) @ post)
      = prune_sections pre @ prune_sections ((h # body) @ post)"
    using a by (intro prune_sections_append) simp
  have 2: "prune_sections ((h # body) @ post)
      = prune_sections (h # body) @ prune_sections post"
    using a by (intro prune_sections_append) simp
  have 3: "prune_sections (h # body) = h # body"
    using a by (intro prune_sections_kept_section) simp_all
  have "prune_sections (pre @ (h # body) @ post)
      = prune_sections pre @ (h # body) @ prune_sections post"
    by (simp only: 1 2 3)
  then show "prune_sections (pre @ h # body @ post)
      = prune_sections pre @ h # body @ prune_sections post"
    by (simp only: append_Cons)
qed

theorem removeEmptySections_prunes_witness:
  "removeEmptySections (js ''# Empty\<newline>\<newline>\<newline># Filled\<newline>Hello\<newline>'') = js ''# Filled\<newline>Hello\<newline>''
   \<and> is_heading (js ''## Empty'') \<and> \<not> list_ex has_content [[], js ''  '']
   \<and> prune_sections ([js ''intro''] @ js ''## Empty'' # [[], js ''  ''])
       = prune_sections [js ''intro'']
   \<and> is_heading (js ''## Filled'') \<and> \<not> list_ex is_heading [[], js ''Hello'']
   \<and> list_ex has_content [[], js ''Hello''] \<and> is_heading (hd [js ''# Next''])
   \<and> prune_sections ([js ''intro''] @ js ''## Filled'' # [[], js ''Hello''] @ [js ''# Next''])
       = prune_sections [js ''intro''] @ js ''## Filled'' # [[], js ''Hello'']
           @ prune_sections [js ''# Next'']"
proof -
  note t = removeEmptySections_prunes
    [of "js ''# Empty\<newline>\<newline>\<newline># Filled\<newline>Hello\<newline>''" "js ''## Empty''" "[[], js ''  '']"
        "[js ''intro'']"]
  note u = removeEmptySections_prunes
    [of "[]" "js ''## Filled''" _ "[js ''intro'']" "[[], js ''Hello'']" "[js ''# Next'']"]
  have e: "join_lines (prune_sections (split_lines (js ''# Empty\<newline>\<newline>\<newline># Filled\<newline>Hello\<newline>'')))
      = js ''# Filled\<newline>Hello\<newline>''"
    by code_simp
  have h1: "is_heading (js ''## Empty'')"
    by code_simp
  have h2: "\<not> list_ex has_content [[], js ''  '']"
    by code_simp
  have h3: "is_heading (js ''## Filled'')"
    by code_simp
  have h4: "\<not> list_ex is_heading [[], js ''Hello'']"
    by code_simp
  have h5: "list_ex has_content [[], js ''Hello'']"
    by code_simp
  have h6: "is_heading (hd [js ''# Next''])"
    by code_simp
  from t e have c1: "removeEmptySections (js ''# Empty\<newline>\<newline>\<newline># Filled\<newline>Hello\<newline>'')
      = js ''# Filled\<newline>Hello\<newline>''"
    by (simp only:)
  from t h1 h2 have c2: "prune_sections ([js ''intro''] @ js ''## Empty'' # [[], js ''  ''])
       = prune_sections [js ''intro'']"
    by blast
  from u h3 h4 h5 h6 have c3:
    "prune_sections ([js ''intro''] @ js ''## Filled'' # [[], js ''Hello''] @ [js ''# Next''])
       = prune_sections [js ''intro''] @ js ''## Filled'' # [[], js ''Hello'']
           @ prune_sections [js ''# Next'']"
    by blast
  from c1 c2 c3 h1 h2 h3 h4 h5 h6 show ?thesis
    by blast
qed

section \<open>Properties of the pipeline\<close>

lemma trim_decomp:
  "\<exists>a b. s = a @ trim s @ b \<and> (\<forall>c\<in>set a. is_ws c) \<and> (\<forall>c\<in>set b. is_ws c)"
proof -
  define d where "d = dropWhile is_ws s"
  have 1: "s = takeWhile is_ws s @ d"
    by (simp add: d_def)
  have ts: "trim s = rev (dropWhile is_ws (rev d))"
    by (simp add: trim_def d_def)
  have "trim s @ rev (takeWhile is_ws (rev d))
      = rev (takeWhile is_ws (rev d) @ dropWhile is_ws (rev d))"
    by (simp only: ts rev_append)
  also have "\<dots> = rev (rev d)"
    by (simp only: takeWhile_dropWhile_id)
  finally have 2: "d = trim s @ rev (takeWhile is_ws (rev d))"
    by simp
  have "\<forall>c\<in>set (takeWhile is_ws s). is_ws c"
    by (auto dest: set_takeWhileD)
  moreover have "\<forall>c\<in>set (rev (takeWhile is_ws (rev d))). is_ws c"
    by (auto dest: set_takeWhileD)
  moreover from 1 2 have "s = takeWhile is_ws s @ trim s @ rev (takeWhile is_ws (rev d))"
    by simp
  ultimately show ?thesis by blast
qed

lemma trim_ends:
  assumes "trim s \<noteq> []"
  shows "\<not> is_ws (hd (trim s)) \<and> \<not> is_ws (last (trim s))"
proof -
  define d where "d = dropWhile is_ws s"
  define e where "e = dropWhile is_ws (rev d)"
  have t: "trim s = rev e"
    by (simp add: trim_def d_def e_def)
  with assms have ne: "e \<noteq> []" by simp
  then have "\<not> is_ws (hd e)"
    unfolding e_def by (rule hd_dropWhile)
  with ne t have l: "\<not> is_ws (last (trim s))"
    by (simp add: last_rev)
  have "trim s @ rev (takeWhile is_ws (rev d)) = rev (takeWhile is_ws (rev d) @ e)"
    by (simp only: t rev_append)
  also have "\<dots> = rev (rev d)"
    by (simp only: e_def takeWhile_dropWhile_id)
  finally have dd: "d = trim s @ rev (takeWhile is_ws (rev d))"
    by simp
  with assms have dne: "d \<noteq> []" by auto
  then have "\<not> is_ws (hd d)"
    unfolding d_def by (rule hd_dropWhile)
  moreover from dd assms have "hd d = hd (trim s)"
    by (metis hd_append2)
  ultimately show ?thesis using l by simp
qed



lemma js_LF: "js ''\<newline>'' = [LF]"
  by (simp add: js_def LF_def)

lemma applyTransforms_fold:
  "applyTransforms settings text = trim (staged settings text) @ [LF]"
  by (simp add: applyTransforms_def staged_def enabled_transforms_def Let_def js_LF)

text \<open>
  Claim C6: the result of \<open>applyTransforms\<close> is the text taken through the enabled transforms
  in the order buttons, task queries, empty sections, then trimmed, then followed by one
  newline; with no transform enabled it is the trimmed text and one newline. Trimming takes
  away a prefix and a suffix of whitespace and leaves a text that neither starts nor ends
  with whitespace, so that the newline appended is the only trailing one.
\<close>

theorem applyTransforms_pipeline:
  "applyTransforms settings text = trim (staged settings text) @ [LF]
   \<and> (\<not> removeButtons settings \<and> \<not> removeTaskQueries settings
        \<and> \<not> removeEmptySections_flag settings \<longrightarrow> applyTransforms settings text = trim text @ [LF])
   \<and> (\<exists>a b. staged settings text = a @ trim (staged settings text) @ b
        \<and> (\<forall>c\<in>set a. is_ws c) \<and> (\<forall>c\<in>set b. is_ws c))
   \<and> (trim (staged settings text) \<noteq> [] \<longrightarrow>
        \<not> is_ws (hd (trim (staged settings text))) \<and> \<not> is_ws (last (trim (staged settings text))))"
proof (intro conjI impI)
  show "applyTransforms settings text = trim (staged settings text) @ [LF]"
    by (rule applyTransforms_fold)
next
  assume "\<not> removeButtons settings \<and> \<not> removeTaskQueries settings
    \<and> \<not> removeEmptySections_flag settings"
  then have "staged settings text = text"
    by (simp add: staged_def enabled_transforms_def)
  then show "applyTransforms settings text = trim text @ [LF]"
    by (simp add: applyTransforms_fold)
next
  show "\<exists>a b. staged settings text = a @ trim (staged settings text) @ b
        \<and> (\<forall>c\<in>set a. is_ws c) \<and> (\<forall>c\<in>set b. is_ws c)"
    by (rule trim_decomp)
next
  assume "trim (staged settings text) \<noteq> []"
  then show "\<not> is_ws (hd (trim (staged settings text)))"
    and "\<not> is_ws (last (trim (staged settings text)))"
    using trim_ends by blast+
qed

theorem applyTransforms_pipeline_witness:
  "applyTransforms DEFAULT_SETTINGS
     (js ''```button\<newline>Do X\<newline>```\<newline>\<newline># Notes\<newline>\<newline>Actual text\<newline>'')
     = js ''# Notes\<newline>\<newline>Actual text'' @ [LF]
   \<and> applyTransforms
       (DEFAULT_SETTINGS\<lparr>removeButtons := False, removeTaskQueries := False,
          removeEmptySections_flag := False\<rparr>) (js '' # Empty  \<newline>'')
     = js ''# Empty'' @ [LF]"
proof -
  note t = applyTransforms_pipeline
    [of DEFAULT_SETTINGS "js ''```button\<newline>Do X\<newline>```\<newline>\<newline># Notes\<newline>\<newline>Actual text\<newline>''"]
  note u = applyTransforms_pipeline
    [of "DEFAULT_SETTINGS\<lparr>removeButtons := False, removeTaskQueries := False,
          removeEmptySections_flag := False\<rparr>" "js '' # Empty  \<newline>''"]
  have e: "trim (staged DEFAULT_SETTINGS
      (js ''```button\<newline>Do X\<newline>```\<newline>\<newline># Notes\<newline>\<newline>Actual text\<newline>''))
      = js ''# Notes\<newline>\<newline>Actual text''"
    by code_simp
  have f: "\<not> removeButtons (DEFAULT_SETTINGS\<lparr>removeButtons := False, removeTaskQueries := False,
          removeEmptySections_flag := False\<rparr>)
     \<and> \<not> removeTaskQueries (DEFAULT_SETTINGS\<lparr>removeButtons := False, removeTaskQueries := False,
          removeEmptySections_flag := False\<rparr>)
     \<and> \<not> removeEmptySections_flag (DEFAULT_SETTINGS\<lparr>removeButtons := False,
          removeTaskQueries := False, removeEmptySections_flag := False\<rparr>)"
    by simp
  have g: "trim (js '' # Empty  \<newline>'') = js ''# Empty''"
    by code_simp
  from t e have c1: "applyTransforms DEFAULT_SETTINGS
     (js ''```button\<newline>Do X\<newline>```\<newline>\<newline># Notes\<newline>\<newline>Actual text\<newline>'')
     = js ''# Notes\<newline>\<newline>Actual text'' @ [LF]"
    by (simp only:)
  from u f have "applyTransforms
       (DEFAULT_SETTINGS\<lparr>removeButtons := False, removeTaskQueries := False,
          removeEmptySections_flag := False\<rparr>) (js '' # Empty  \<newline>'')
     = trim (js '' # Empty  \<newline>'') @ [LF]"
    by blast
  with g have c2: "applyTransforms
       (DEFAULT_SETTINGS\<lparr>removeButtons := False, removeTaskQueries := False,
          removeEmptySections_flag := False\<rparr>) (js '' # Empty  \<newline>'')
     = js ''# Empty'' @ [LF]"
    by (simp only:)
  from c1 c2 show ?thesis
    by (rule conjI)
qed

subsection \<open>A second pass\<close>

text \<open>
  What a removal of blocks leaves, when the blocks it takes out are set off: a text without a
  fenced region of the tag, and without a region of any tag it had no region of before.
\<close>

declare regions_set_off.simps [simp del]










text \<open>
  The pruning removes whole lines, the trim removes whitespace at the two ends: neither
  makes a fenced region in a text that has none.
\<close>

lemma has_fence_iff: "has_fence s \<longleftrightarrow> (\<exists>a c. s = a @ fence @ c)"
proof
  assume "has_fence s"
  then show "\<exists>a c. s = a @ fence @ c"
  proof (induction s)
    case Nil
    then show ?case by simp
  next
    case (Cons x xs)
    show ?case
    proof (cases "prefix fence (x # xs)")
      case True
      then obtain c where "x # xs = [] @ fence @ c"
        by (auto simp: prefix_def)
      then show ?thesis by blast
    next
      case False
      with Cons.prems have "has_fence xs" by simp
      from Cons.IH [OF this] obtain a c where "xs = a @ fence @ c" by blast
      then have "x # xs = (x # a) @ fence @ c" by simp
      then show ?thesis by blast
    qed
  qed
next
  assume "\<exists>a c. s = a @ fence @ c"
  then show "has_fence s"
    using has_fence_mid by blast
qed











































text \<open>
  It fails in a second way: the removal of a block can bring together the backticks in front
  of it and the tag behind it, which then open a block for the second pass. In the first of
  the two texts the line with content is a heading hidden behind whitespace, with an empty
  section; in this one the block removed stands directly behind a backtick.
\<close>

lemma applyTransforms_twice_differs_joined:
  "indented_heading_exposed (split_lines (stripped DEFAULT_SETTINGS (js '' # A'')))
   \<and> \<not> regions_set_off (js ''button'') True (js ''a``````button x```button y```b'')
   \<and> applyTransforms DEFAULT_SETTINGS (js ''a``````button x```button y```b'')
       = js ''a```button y```b\<newline>''
   \<and> applyTransforms DEFAULT_SETTINGS
        (applyTransforms DEFAULT_SETTINGS (js ''a``````button x```button y```b'')) = js ''ab\<newline>''"
  by code_simp



section \<open>Properties of the age test\<close>

lemma date_at_Nil: "\<not> date_at [] i"
  by (simp add: date_at_def date_shape_def)

lemma date_at_0: "date_at (c # cs) 0 = date_shape (take 10 (c # cs))"
  by (simp add: date_at_def)

lemma date_at_Suc: "date_at (c # cs) (Suc i) = date_at cs i"
  by (simp add: date_at_def)

lemma match_date_None_iff: "match_date s = None \<longleftrightarrow> (\<forall>i. \<not> date_at s i)"
proof (induction s)
  case Nil
  then show ?case by (simp add: date_at_Nil)
next
  case (Cons c cs)
  show ?case
  proof (cases "date_shape (take 10 (c # cs))")
    case True
    then have "date_at (c # cs) 0" by (simp add: date_at_0)
    with True show ?thesis by auto
  next
    case False
    have "(\<forall>i. \<not> date_at (c # cs) i) \<longleftrightarrow> (\<forall>i. \<not> date_at cs i)"
    proof
      assume a: "\<forall>i. \<not> date_at (c # cs) i"
      show "\<forall>i. \<not> date_at cs i"
      proof
        fix i from a have "\<not> date_at (c # cs) (Suc i)" by blast
        then show "\<not> date_at cs i" by (simp add: date_at_Suc)
      qed
    next
      assume a: "\<forall>i. \<not> date_at cs i"
      show "\<forall>i. \<not> date_at (c # cs) i"
      proof
        fix i show "\<not> date_at (c # cs) i"
        proof (cases i)
          case 0
          with False show ?thesis by (simp add: date_at_0)
        next
          case (Suc j)
          with a show ?thesis by (simp add: date_at_Suc)
        qed
      qed
    qed
    with False Cons.IH show ?thesis by simp
  qed
qed

lemma match_date_first:
  "date_at s i \<Longrightarrow> (\<forall>j<i. \<not> date_at s j) \<Longrightarrow> match_date s = Some (take 10 (drop i s))"
proof (induction s arbitrary: i)
  case Nil
  then show ?case by (simp add: date_at_Nil)
next
  case (Cons c cs)
  show ?case
  proof (cases i)
    case 0
    with Cons.prems(1) have "date_shape (take 10 (c # cs))" by (simp add: date_at_0)
    with 0 show ?thesis by simp
  next
    case (Suc k)
    with Cons.prems(2) have "\<not> date_at (c # cs) 0" by blast
    then have n: "\<not> date_shape (take 10 (c # cs))" by (simp add: date_at_0)
    from Cons.prems(1) Suc have d: "date_at cs k" by (simp add: date_at_Suc)
    have "\<forall>j<k. \<not> date_at cs j"
    proof (intro allI impI)
      fix j assume "j < k"
      with Suc Cons.prems(2) have "\<not> date_at (c # cs) (Suc j)" by simp
      then show "\<not> date_at cs j" by (simp add: date_at_Suc)
    qed
    from Cons.IH [OF d this] n Suc show ?thesis by simp
  qed
qed

lemma days_le_iff:
  "(of_int T :: rat) \<le> of_int x / of_int msPerDay \<longleftrightarrow> T * msPerDay \<le> x"
proof -
  have pos: "(0 :: rat) < of_int msPerDay" by (simp add: msPerDay_def)
  have "(of_int T :: rat) \<le> of_int x / of_int msPerDay \<longleftrightarrow> (of_int T :: rat) * of_int msPerDay \<le> of_int x"
    using pos by (simp add: pos_le_divide_eq)
  also have "\<dots> \<longleftrightarrow> (of_int (T * msPerDay) :: rat) \<le> of_int x"
    by simp
  also have "\<dots> \<longleftrightarrow> T * msPerDay \<le> x"
    by (simp only: of_int_le_iff)
  finally show ?thesis .
qed

lemma isOldEnough_iso:
  assumes "match_date basename = Some s"
    and "IsMonth (month_field s)" and "IsDay (day_field s)"
  shows "isOldEnough settings tza now basename \<longleftrightarrow>
    of_int (daysAfter settings)
      \<le> elapsed_days now (utc_midnight (year_field s) (month_field s) (day_field s))"
  using assms
  by (simp add: isOldEnough_def Date_getTime_def Let_def elapsed_days_def utc_midnight_def
      msPerDay_def)

lemma div_step:
  fixes a n :: int
  assumes n: "0 < n"
  shows "(a + 1) div n = a div n + (if (a + 1) mod n = 0 then 1 else 0)"
proof -
  define q r where "q = a div n" and "r = a mod n"
  have a: "a = n * q + r" by (simp add: q_def r_def)
  have r: "0 \<le> r" "r < n" using n by (simp_all add: r_def)
  show ?thesis
  proof (cases "r + 1 = n")
    case True
    then have e: "a + 1 = n * (q + 1) + 0" using a by (simp add: algebra_simps)
    from n have "(a + 1) div n = q + 1"
      by (intro int_div_pos_eq [OF e]) simp_all
    moreover from n have "(a + 1) mod n = 0"
      by (intro int_mod_pos_eq [OF e]) simp_all
    ultimately show ?thesis by (simp add: q_def)
  next
    case False
    with r have lt: "r + 1 < n" by simp
    have e: "a + 1 = n * q + (r + 1)" using a by simp
    from r lt have "(a + 1) div n = q"
      by (intro int_div_pos_eq [OF e]) simp_all
    moreover from r lt have "(a + 1) mod n = r + 1"
      by (intro int_mod_pos_eq [OF e]) simp_all
    ultimately show ?thesis using r by (simp add: q_def)
  qed
qed

lemma mod_shift:
  fixes y :: int
  shows "(y - k * n) mod n = y mod n"
proof -
  have "(y - k * n) mod n = (y + (- k) * n) mod n" by simp
  also have "\<dots> = y mod n" by (rule mod_mult_self1)
  finally show ?thesis .
qed

lemma div_4_step: "(y - 1968) div 4 = (y - 1969) div 4 + (if y mod 4 = 0 then 1 else 0)" for y :: int
  using div_step [of 4 "y - 1969"] mod_shift [of y 492 4] by simp

lemma div_100_step: "(y - 1900) div 100 = (y - 1901) div 100 + (if y mod 100 = 0 then 1 else 0)" for y :: int
  using div_step [of 100 "y - 1901"] mod_shift [of y 19 100] by simp

lemma div_400_step: "(y - 1600) div 400 = (y - 1601) div 400 + (if y mod 400 = 0 then 1 else 0)" for y :: int
  using div_step [of 400 "y - 1601"] mod_shift [of y 4 400] by simp

lemma mod_400_100: "y mod 400 = 0 \<Longrightarrow> y mod 100 = 0" for y :: int
proof -
  assume "y mod 400 = 0"
  then have "400 dvd y" by (simp add: dvd_eq_mod_eq_0)
  moreover have "(100 :: int) dvd 400" by simp
  ultimately have "100 dvd y" using dvd_trans by blast
  then show ?thesis by (simp add: dvd_eq_mod_eq_0)
qed

lemma mod_100_4: "y mod 100 = 0 \<Longrightarrow> y mod 4 = 0" for y :: int
proof -
  assume "y mod 100 = 0"
  then have "100 dvd y" by (simp add: dvd_eq_mod_eq_0)
  moreover have "(4 :: int) dvd 100" by simp
  ultimately have "4 dvd y" using dvd_trans by blast
  then show ?thesis by (simp add: dvd_eq_mod_eq_0)
qed

lemma DayFromYear_Suc:
  "DayFromYear (y + 1) = DayFromYear y + (if InLeapYear y then 366 else 365)"
proof -
  define a b c where "a = (y - 1969) div 4" and "b = (y - 1901) div 100"
    and "c = (y - 1601) div 400"
  define a' b' c' where "a' = (y - 1968) div 4" and "b' = (y - 1900) div 100"
    and "c' = (y - 1600) div 400"
  have 0: "DayFromYear y = 365 * (y - 1970) + a - b + c"
    by (simp add: DayFromYear_def a_def b_def c_def)
  have 1: "DayFromYear (y + 1) = 365 * (y - 1969) + a' - b' + c'"
    by (simp add: DayFromYear_def a'_def b'_def c'_def)
  have sa: "a' = a + (if y mod 4 = 0 then 1 else 0)"
    unfolding a_def a'_def by (rule div_4_step)
  have sb: "b' = b + (if y mod 100 = 0 then 1 else 0)"
    unfolding b_def b'_def by (rule div_100_step)
  have sc: "c' = c + (if y mod 400 = 0 then 1 else 0)"
    unfolding c_def c'_def by (rule div_400_step)
  show ?thesis
  proof (cases "y mod 400 = 0")
    case True
    with mod_400_100 [of y] have h: "y mod 100 = 0" by simp
    with mod_100_4 [of y] have f: "y mod 4 = 0" by simp
    from True h f show ?thesis
      unfolding 0 1 sa sb sc InLeapYear_def by simp
  next
    case n400: False
    show ?thesis
    proof (cases "y mod 100 = 0")
      case True
      with mod_100_4 [of y] have f: "y mod 4 = 0" by simp
      from n400 True f show ?thesis
        unfolding 0 1 sa sb sc InLeapYear_def by simp
    next
      case n100: False
      show ?thesis
      proof (cases "y mod 4 = 0")
        case True
        with n400 n100 show ?thesis
          unfolding 0 1 sa sb sc InLeapYear_def by simp
      next
        case False
        with n400 n100 show ?thesis
          unfolding 0 1 sa sb sc InLeapYear_def by simp
      qed
    qed
  qed
qed

lemma MakeDay_rollover:
  assumes "1 \<le> m" "m \<le> 12"
  shows "MakeDay y (m - 1) (days_in_month y m + k) =
    (if m = 12 then MakeDay (y + 1) 0 k else MakeDay y m k)"
proof -
  from assms have "m = 1 \<or> m = 2 \<or> m = 3 \<or> m = 4 \<or> m = 5 \<or> m = 6
    \<or> m = 7 \<or> m = 8 \<or> m = 9 \<or> m = 10 \<or> m = 11 \<or> m = 12"
    by arith
  then consider "m = 1" | "m = 2" | "m = 3" | "m = 4" | "m = 5" | "m = 6"
    | "m = 7" | "m = 8" | "m = 9" | "m = 10" | "m = 11" | "m = 12"
    by blast
  then show ?thesis
    by cases (simp_all add: MakeDay_def DayWithinYear_def days_in_month_def DayFromYear_Suc)
qed


lemma utc_midnight_rollover:
  assumes "1 \<le> m \<and> m \<le> 12"
  shows "utc_midnight y m (days_in_month y m + k) =
    (if m = 12 then utc_midnight (y + 1) 1 k else utc_midnight y (m + 1) k)"
  using assms MakeDay_rollover [of m y k] by (simp add: utc_midnight_def)

lemma days_in_month_le_31: "days_in_month y m \<le> 31"
  by (simp add: days_in_month_def)

text \<open>
  Where the date check has nothing to refuse, the elapsed time alone decides: an
  identifier without a substring of the shape \<open>YYYY-MM-DD\<close> is never eligible, and when the
  first such substring is a calendar date the identifier is eligible exactly when the time
  elapsed from UTC midnight of that date to \<open>now\<close>, divided by 24 hours and not floored, is at
  least the threshold, which is the same as threshold times 24 hours being at most the
  elapsed milliseconds.
\<close>

lemma isOldEnough_calendar_date:
  "((\<forall>i. \<not> date_at basename i) \<longrightarrow> \<not> isOldEnough settings tza now basename)
   \<and> (date_at basename i \<and> (\<forall>j<i. \<not> date_at basename j) \<and> s = take 10 (drop i basename)
      \<and> valid_calendar_date (year_field s) (month_field s) (day_field s)
        \<longrightarrow> (isOldEnough settings tza now basename \<longleftrightarrow>
               of_int (daysAfter settings)
                 \<le> elapsed_days now (utc_midnight (year_field s) (month_field s) (day_field s))))
   \<and> (of_int (daysAfter settings) \<le> elapsed_days now t
        \<longleftrightarrow> daysAfter settings * msPerDay \<le> now - t)"
proof (intro conjI impI)
  assume "\<forall>i. \<not> date_at basename i"
  then have "match_date basename = None"
    by (simp add: match_date_None_iff)
  then show "\<not> isOldEnough settings tza now basename"
    by (simp add: isOldEnough_def)
next
  assume a: "date_at basename i \<and> (\<forall>j<i. \<not> date_at basename j)
    \<and> s = take 10 (drop i basename)
    \<and> valid_calendar_date (year_field s) (month_field s) (day_field s)"
  then have m: "match_date basename = Some s"
    using match_date_first [of basename i] by simp
  from a have v: "valid_calendar_date (year_field s) (month_field s) (day_field s)"
    by blast
  have "IsMonth (month_field s)" and "IsDay (day_field s)"
    using v days_in_month_le_31 [of "year_field s" "month_field s"]
    unfolding valid_calendar_date_def IsMonth_def IsDay_def by auto
  with m show "isOldEnough settings tza now basename \<longleftrightarrow>
               of_int (daysAfter settings)
                 \<le> elapsed_days now (utc_midnight (year_field s) (month_field s) (day_field s))"
    by (rule isOldEnough_iso)
next
  show "of_int (daysAfter settings) \<le> elapsed_days now t
        \<longleftrightarrow> daysAfter settings * msPerDay \<le> now - t"
    unfolding elapsed_days_def by (rule days_le_iff)
qed

text \<open>
  The date check also refuses what the engine refuses: a month outside 01 to 12 or a day
  outside 01 to 31, unless the legacy stage of the parser finds a date in the three numbers.
\<close>

lemma isOldEnough_refused:
  assumes "match_date basename = Some s"
    and "\<not> (IsMonth (month_field s) \<and> IsDay (day_field s))"
    and "\<not> (IsMonth (year_field s) \<and> IsDay (month_field s))"
  shows "\<not> isOldEnough settings tza now basename"
proof -
  from assms(2,3) have "Date_getTime tza s = None"
    by (auto simp: Date_getTime_def legacy_date_def Let_def IsMonth_def IsDay_def)
  with assms(1) show ?thesis
    by (simp add: isOldEnough_def)
qed

text \<open>
  The legacy stage at work: \<open>0012-13-01\<close> is 13 December 2001, at midnight in local time, and
  \<open>0012-01-32\<close> is 1 December 2032.
\<close>

lemma Date_getTime_legacy:
  "Date_getTime example_zone (js ''0012-13-01'') = Some (utc_midnight 2001 12 13 - 3600000)
   \<and> Date_getTime example_zone (js ''0012-01-32'') = Some (utc_midnight 2032 12 1 - 3600000)
   \<and> Date_getTime example_zone (js ''2023-13-01'') = None
   \<and> Date_getTime example_zone (js ''2023-02-32'') = None
   \<and> Date_getTime example_zone (js ''0013-13-01'') = None
   \<and> isOldEnough DEFAULT_SETTINGS example_zone 1679270400000 (js ''0012-13-01'')"
  by code_simp

text \<open>
  Claim C3 says that an identifier whose date is no calendar date is never eligible. That is
  what the check of the time value is written for, and it refuses month 13 and day 32. It
  misses a day number up to 31 beyond the end of its month, which the engine accepts and
  counts on into the following month: \<open>2023-02-30\<close> is read as 2 March 2023, and the note of
  that name is eligible eighteen days later, on 20 March 2023, for the threshold of seven
  days, in every time zone.
\<close>

theorem isOldEnough_accepts_feb_30:
  "\<not> valid_calendar_date 2023 2 30
   \<and> match_date (js ''2023-02-30'') = Some (js ''2023-02-30'')
   \<and> year_field (js ''2023-02-30'') = 2023 \<and> month_field (js ''2023-02-30'') = 2
   \<and> day_field (js ''2023-02-30'') = 30
   \<and> Date_getTime tza (js ''2023-02-30'') = Some (utc_midnight 2023 3 2)
   \<and> daysAfter DEFAULT_SETTINGS = 7
   \<and> isOldEnough DEFAULT_SETTINGS tza 1679270400000 (js ''2023-02-30'')"
  by code_simp

section \<open>Properties of the run\<close>

lemma clean_child_frame:
  assumes "clean_child settings now child a = (out, a')"
  shows "\<exists>reqs. requests a' = requests a @ reqs
    \<and> (\<forall>r\<in>set reqs. request_path r \<in> set (md_child_paths [child]))
    \<and> (\<forall>p. p \<notin> set (md_child_paths [child]) \<longrightarrow> contents a' p = contents a p)
    \<and> notices a' = notices a"
proof (cases child)
  case (TFolder p cs)
  with assms show ?thesis by (simp add: clean_child_def)
next
  case (TFile p basename extension)
  show ?thesis
  proof (cases "extension = js ''md'' \<and> isOldEnough settings (LocalTZA a) now basename")
    case False
    with assms TFile have "a' = a"
      by (auto simp: clean_child_def split: if_splits)
    then show ?thesis by simp
  next
    case True
    show ?thesis
    proof (cases "contents a p = None \<or> p \<in> read_rejected a")
      case rf: True
      with assms TFile True have "a' = a\<lparr>requests := requests a @ [Read p]\<rparr>"
        by (auto simp: clean_child_def vault_read_def Let_def split: option.splits)
      with TFile True show ?thesis by simp
    next
      case False
      then obtain original where o: "contents a p = Some original" and nr: "p \<notin> read_rejected a"
        by auto
      define a1 where "a1 = a\<lparr>requests := requests a @ [Read p]\<rparr>"
      from o nr have r: "vault_read p a = (Inr original, a1)"
        by (simp add: vault_read_def Let_def a1_def)
      show ?thesis
      proof (cases "original = applyTransforms settings original")
        case same: True
        with assms TFile True r have "a' = a1"
          by (simp add: clean_child_def Let_def)
        with TFile True show ?thesis by (simp add: a1_def)
      next
        case diff: False
        with assms TFile True r
        have m: "vault_modify p (applyTransforms settings original) a1 = (out, a')"
          by (simp add: clean_child_def Let_def)
        define c where "c = applyTransforms settings original"
        from m have "requests a' = requests a @ [Read p, Modify p c]
            \<and> (\<forall>q. q \<noteq> p \<longrightarrow> contents a' q = contents a q) \<and> notices a' = notices a"
          by (auto simp: vault_modify_def Let_def a1_def c_def split: if_splits)
        with TFile True show ?thesis by simp
      qed
    qed
  qed
qed

lemma md_child_paths_append: "md_child_paths (xs @ ys) = md_child_paths xs @ md_child_paths ys"
  by (induction xs rule: md_child_paths.induct) simp_all

lemma clean_children_frame:
  "clean_children settings clock k children a = (out, a') \<Longrightarrow>
   \<exists>reqs. requests a' = requests a @ reqs
    \<and> (\<forall>r\<in>set reqs. request_path r \<in> set (md_child_paths children))
    \<and> (\<forall>p. p \<notin> set (md_child_paths children) \<longrightarrow> contents a' p = contents a p)
    \<and> notices a' = notices a"
proof (induction children arbitrary: k a)
  case Nil
  then show ?case by simp
next
  case (Cons child rest)
  obtain o1 a1 where c: "clean_child settings (clock k) child a = (o1, a1)"
    by (cases "clean_child settings (clock k) child a")
  from clean_child_frame [OF c] obtain r1 where r1: "requests a1 = requests a @ r1"
    "\<forall>r\<in>set r1. request_path r \<in> set (md_child_paths [child])"
    "\<forall>p. p \<notin> set (md_child_paths [child]) \<longrightarrow> contents a1 p = contents a p"
    "notices a1 = notices a"
    by blast
  have sub: "set (md_child_paths [child]) \<subseteq> set (md_child_paths (child # rest))"
    using md_child_paths_append [of "[child]" rest] by auto
  have sub2: "set (md_child_paths rest) \<subseteq> set (md_child_paths (child # rest))"
    using md_child_paths_append [of "[child]" rest] by auto
  show ?case
  proof (cases o1)
    case (Rejected e)
    with Cons.prems c have "a' = a1" by simp
    with r1 sub show ?thesis by blast
  next
    case Resolved
    with Cons.prems c have "clean_children settings clock (k + 1) rest a1 = (out, a')" by simp
    from Cons.IH [OF this] obtain r2 where r2: "requests a' = requests a1 @ r2"
      "\<forall>r\<in>set r2. request_path r \<in> set (md_child_paths rest)"
      "\<forall>p. p \<notin> set (md_child_paths rest) \<longrightarrow> contents a' p = contents a1 p"
      "notices a' = notices a1"
      by blast
    from r1 r2 have "requests a' = requests a @ (r1 @ r2)" by simp
    moreover from r1 r2 have "notices a' = notices a" by simp
    moreover from r1 r2 sub sub2
    have "\<forall>r\<in>set (r1 @ r2). request_path r \<in> set (md_child_paths (child # rest))" by auto
    moreover from r1 r2 sub sub2
    have "\<forall>p. p \<notin> set (md_child_paths (child # rest)) \<longrightarrow> contents a' p = contents a p"
      by (metis subsetD)
    ultimately show ?thesis by blast
  qed
qed


lemma clean_children_append:
  "clean_children settings clock k (xs @ ys) a =
     (case clean_children settings clock k xs a of
        (Rejected e, a') \<Rightarrow> (Rejected e, a')
      | (Resolved, a') \<Rightarrow> clean_children settings clock (k + length xs) ys a')"
proof (induction xs arbitrary: k a)
  case Nil
  then show ?case by simp
next
  case (Cons x xs)
  show ?case
  proof (cases "clean_child settings (clock k) x a")
    case (Pair o1 a1)
    then show ?thesis
      using Cons.IH [of "k + 1" a1]
      by (cases o1) (auto simp: add.assoc split: prod.splits outcome.splits)
  qed
qed

lemma cleanNotes_unresolved:
  "resolved_folder settings a = None \<Longrightarrow>
   \<exists>message. cleanNotes settings clock a = (Resolved, Notice message a)"
  by (auto simp: cleanNotes_def resolved_folder_def Let_def
      split: if_splits option.splits TAbstractFile.splits)

lemma cleanNotes_resolved:
  "resolved_folder settings a = Some children \<Longrightarrow>
   cleanNotes settings clock a =
     (case clean_children settings clock 0 children a of
        (Rejected e, a') \<Rightarrow> (Rejected e, a')
      | (Resolved, a') \<Rightarrow> (Resolved, Notice (js ''Finished cleaning daily notes'') a'))"
  by (auto simp: cleanNotes_def resolved_folder_def Let_def
      split: if_splits option.splits TAbstractFile.splits)

lemma clean_child_clean:
  assumes c: "clean_child settings now child a = (out, a')"
    and o: "contents a p = Some original" and same: "applyTransforms settings original = original"
  shows "contents a' p = Some original
    \<and> (\<exists>reqs. requests a' = requests a @ reqs \<and> (\<forall>r\<in>set reqs. \<forall>text. r \<noteq> Modify p text))"
proof (cases child)
  case (TFolder q cs)
  with c have "a' = a" by (simp add: clean_child_def)
  with o show ?thesis by simp
next
  case (TFile q basename extension)
  show ?thesis
  proof (cases "extension = js ''md'' \<and> isOldEnough settings (LocalTZA a) now basename")
    case False
    with c TFile have "a' = a"
      by (auto simp: clean_child_def split: if_splits)
    with o show ?thesis by simp
  next
    case True
    show ?thesis
    proof (cases "contents a q = None \<or> q \<in> read_rejected a")
      case rf: True
      with c TFile True have "a' = a\<lparr>requests := requests a @ [Read q]\<rparr>"
        by (auto simp: clean_child_def vault_read_def Let_def split: option.splits)
      with o show ?thesis by simp
    next
      case False
      then obtain stored where t: "contents a q = Some stored" and nr: "q \<notin> read_rejected a"
        by auto
      define a1 where "a1 = a\<lparr>requests := requests a @ [Read q]\<rparr>"
      from t nr have r: "vault_read q a = (Inr stored, a1)"
        by (simp add: vault_read_def Let_def a1_def)
      show ?thesis
      proof (cases "stored = applyTransforms settings stored")
        case True
        with c TFile \<open>extension = js ''md'' \<and> isOldEnough settings (LocalTZA a) now basename\<close> r
        have "a' = a1"
          by (simp add: clean_child_def Let_def)
        with o show ?thesis by (simp add: a1_def)
      next
        case diff: False
        with t o same have qp: "q \<noteq> p" by auto
        from diff c TFile True r
        have m: "vault_modify q (applyTransforms settings stored) a1 = (out, a')"
          by (simp add: clean_child_def Let_def)
        define d where "d = applyTransforms settings stored"
        from m have "requests a' = requests a @ [Read q, Modify q d]
            \<and> (\<forall>x. x \<noteq> q \<longrightarrow> contents a' x = contents a x)"
          by (auto simp: vault_modify_def Let_def a1_def d_def split: if_splits)
        with qp o show ?thesis by auto
      qed
    qed
  qed
qed

lemma clean_children_clean:
  "clean_children settings clock k children a = (out, a') \<Longrightarrow>
   contents a p = Some original \<Longrightarrow> applyTransforms settings original = original \<Longrightarrow>
   contents a' p = Some original
    \<and> (\<exists>reqs. requests a' = requests a @ reqs \<and> (\<forall>r\<in>set reqs. \<forall>text. r \<noteq> Modify p text))"
proof (induction children arbitrary: k a)
  case Nil
  then show ?case by simp
next
  case (Cons child rest)
  obtain o1 a1 where c: "clean_child settings (clock k) child a = (o1, a1)"
    by (cases "clean_child settings (clock k) child a")
  from clean_child_clean [OF c Cons.prems(2,3)] obtain r1 where
    c1: "contents a1 p = Some original" and r1: "requests a1 = requests a @ r1"
      "\<forall>r\<in>set r1. \<forall>text. r \<noteq> Modify p text"
    by blast
  show ?case
  proof (cases o1)
    case (Rejected e)
    with Cons.prems(1) c have "a' = a1" by simp
    with c1 r1 show ?thesis by blast
  next
    case Resolved
    with Cons.prems(1) c have "clean_children settings clock (k + 1) rest a1 = (out, a')"
      by simp
    from Cons.IH [OF this c1 Cons.prems(3)] obtain r2 where
      c2: "contents a' p = Some original" and r2: "requests a' = requests a1 @ r2"
        "\<forall>r\<in>set r2. \<forall>text. r \<noteq> Modify p text"
      by blast
    from r1 r2 have "requests a' = requests a @ (r1 @ r2)" by simp
    moreover from r1 r2 have "\<forall>r\<in>set (r1 @ r2). \<forall>text. r \<noteq> Modify p text" by auto
    ultimately show ?thesis using c2 by blast
  qed
qed

text \<open>
  Claim C2, as stated, fails: \<open>cleanNotes\<close> has no handler around \<open>read\<close> and \<open>modify\<close>, so
  the first failure rejects the promise of the whole run. Here the read of the first note
  fails; the second note is old enough and would be changed by the transforms, but it is
  never read and keeps its content.
\<close>

theorem cleanNotes_failure_stops_run:
  "fst (cleanNotes example_settings example_clock
      (example_app\<lparr>read_rejected := {js ''daily/2020-01-01.md''}\<rparr>))
     = Rejected (ReadFailed (js ''daily/2020-01-01.md''))
   \<and> requests (snd (cleanNotes example_settings example_clock
      (example_app\<lparr>read_rejected := {js ''daily/2020-01-01.md''}\<rparr>)))
     = [Read (js ''daily/2020-01-01.md'')]
   \<and> isOldEnough example_settings example_zone (example_clock 1) (js ''2020-01-02'')
   \<and> contents (snd (cleanNotes example_settings example_clock
      (example_app\<lparr>read_rejected := {js ''daily/2020-01-01.md''}\<rparr>))) (js ''daily/2020-01-02.md'')
     = Some (js ''text  '')
   \<and> applyTransforms example_settings (js ''text  '') = js ''text\<newline>''
   \<and> requests (snd (cleanNotes example_settings example_clock example_app))
     = [Read (js ''daily/2020-01-01.md''), Read (js ''daily/2020-01-02.md''),
        Modify (js ''daily/2020-01-02.md'') (js ''text\<newline>'')]"
  by code_simp

text \<open>
  Claim C2, amended: when the read or the write of one document fails, the failure leaves
  the loop and rejects the run. The documents before it have been processed, the state is the
  one at the failure, no request is sent for a remaining document, their contents are
  unchanged, and no notice of completion is shown.
\<close>

theorem cleanNotes_failure_aborts:
  assumes f: "resolved_folder settings a = Some (pre @ child # rest)"
    and p: "clean_children settings clock 0 pre a = (Resolved, a1)"
    and c: "clean_child settings (clock (length pre)) child a1 = (Rejected e, a2)"
  shows "cleanNotes settings clock a = (Rejected e, a2)
    \<and> notices a2 = notices a
    \<and> (\<forall>r\<in>set (new_requests a a2). request_path r \<in> set (md_child_paths (pre @ [child])))
    \<and> (\<forall>q. q \<notin> set (md_child_paths (pre @ [child])) \<longrightarrow> contents a2 q = contents a q)"
proof -
  from p c have 1: "clean_children settings clock 0 (pre @ [child]) a = (Rejected e, a2)"
    by (simp add: clean_children_append)
  then have 2: "clean_children settings clock 0 ((pre @ [child]) @ rest) a = (Rejected e, a2)"
    by (simp only: clean_children_append) simp
  with f have run: "cleanNotes settings clock a = (Rejected e, a2)"
    by (simp add: cleanNotes_resolved)
  from clean_children_frame [OF 1] obtain reqs where r: "requests a2 = requests a @ reqs"
    "\<forall>r\<in>set reqs. request_path r \<in> set (md_child_paths (pre @ [child]))"
    "\<forall>q. q \<notin> set (md_child_paths (pre @ [child])) \<longrightarrow> contents a2 q = contents a q"
    and n: "notices a2 = notices a"
    by blast
  from run r n show ?thesis
    by (simp add: new_requests_def)
qed


theorem cleanNotes_failure_aborts_witness:
  "resolved_folder example_settings (example_app\<lparr>modify_rejected := {js ''daily/2020-01-02.md''}\<rparr>)
     = Some ([TFile (js ''daily/2020-01-01.md'') (js ''2020-01-01'') (js ''md'')]
         @ TFile (js ''daily/2020-01-02.md'') (js ''2020-01-02'') (js ''md'')
         # [TFile (js ''daily/2020-01-03.txt'') (js ''2020-01-03'') (js ''txt''),
            TFolder (js ''daily/old'')
              [TFile (js ''daily/old/2019-01-01.md'') (js ''2019-01-01'') (js ''md'')]])
   \<and> fst (clean_children example_settings example_clock 0
        [TFile (js ''daily/2020-01-01.md'') (js ''2020-01-01'') (js ''md'')]
        (example_app\<lparr>modify_rejected := {js ''daily/2020-01-02.md''}\<rparr>)) = Resolved
   \<and> fst (cleanNotes example_settings example_clock
        (example_app\<lparr>modify_rejected := {js ''daily/2020-01-02.md''}\<rparr>))
       = Rejected (ModifyFailed (js ''daily/2020-01-02.md''))
   \<and> notices (snd (cleanNotes example_settings example_clock
        (example_app\<lparr>modify_rejected := {js ''daily/2020-01-02.md''}\<rparr>))) = []"
proof -
  let ?a = "example_app\<lparr>modify_rejected := {js ''daily/2020-01-02.md''}\<rparr>"
  let ?pre = "[TFile (js ''daily/2020-01-01.md'') (js ''2020-01-01'') (js ''md'')]"
  let ?child = "TFile (js ''daily/2020-01-02.md'') (js ''2020-01-02'') (js ''md'')"
  let ?rest = "[TFile (js ''daily/2020-01-03.txt'') (js ''2020-01-03'') (js ''txt''),
            TFolder (js ''daily/old'')
              [TFile (js ''daily/old/2019-01-01.md'') (js ''2019-01-01'') (js ''md'')]]"
  let ?a1 = "snd (clean_children example_settings example_clock 0 ?pre ?a)"
  let ?a2 = "snd (clean_child example_settings (example_clock (length ?pre)) ?child ?a1)"
  have h1: "resolved_folder example_settings ?a = Some (?pre @ ?child # ?rest)"
    by code_simp
  have f2: "fst (clean_children example_settings example_clock 0 ?pre ?a) = Resolved"
    by code_simp
  then have h2: "clean_children example_settings example_clock 0 ?pre ?a = (Resolved, ?a1)"
    by (metis prod.collapse)
  have "fst (clean_child example_settings (example_clock (length ?pre)) ?child ?a1)
      = Rejected (ModifyFailed (js ''daily/2020-01-02.md''))"
    by code_simp
  then have h3: "clean_child example_settings (example_clock (length ?pre)) ?child ?a1
      = (Rejected (ModifyFailed (js ''daily/2020-01-02.md'')), ?a2)"
    by (metis prod.collapse)
  have n: "notices ?a = []"
    by code_simp
  note t = cleanNotes_failure_aborts [OF h1 h2 h3]
  from t have c1: "fst (cleanNotes example_settings example_clock ?a)
      = Rejected (ModifyFailed (js ''daily/2020-01-02.md''))"
    by simp
  from t n have c2: "notices (snd (cleanNotes example_settings example_clock ?a)) = []"
    by simp
  from h1 f2 c1 c2 show ?thesis
    by (intro conjI)
qed

text \<open>
  Claim C7: a document whose content the transforms leave unchanged is never written during
  a run, whether or not it is eligible and read, and its stored content after the run is
  the one before.
\<close>

theorem cleanNotes_skips_unchanged:
  assumes run: "cleanNotes settings clock a = (out, a')"
    and o: "contents a p = Some original" and same: "applyTransforms settings original = original"
  shows "contents a' p = Some original
    \<and> (\<forall>r\<in>set (new_requests a a'). \<forall>text. r \<noteq> Modify p text)"
proof (cases "resolved_folder settings a")
  case None
  from cleanNotes_unresolved [OF None, of clock] run obtain message where "a' = Notice message a"
    by auto
  with o show ?thesis by (simp add: Notice_def new_requests_def)
next
  case (Some children)
  obtain o1 a1 where c: "clean_children settings clock 0 children a = (o1, a1)"
    by (cases "clean_children settings clock 0 children a")
  from clean_children_clean [OF c o same] obtain reqs where
    c1: "contents a1 p = Some original" and r: "requests a1 = requests a @ reqs"
      "\<forall>r\<in>set reqs. \<forall>text. r \<noteq> Modify p text"
    by blast
  from run cleanNotes_resolved [OF Some, of clock] c
  have "requests a' = requests a1 \<and> contents a' = contents a1"
    by (cases o1) (auto simp: Notice_def)
  with c1 r show ?thesis
    by (simp add: new_requests_def)
qed

theorem cleanNotes_skips_unchanged_witness:
  "contents example_app (js ''daily/2020-01-01.md'') = Some (js ''kept\<newline>'')
   \<and> applyTransforms example_settings (js ''kept\<newline>'') = js ''kept\<newline>''
   \<and> isOldEnough example_settings example_zone (example_clock 0) (js ''2020-01-01'')
   \<and> Read (js ''daily/2020-01-01.md'')
       \<in> set (new_requests example_app (snd (cleanNotes example_settings example_clock example_app)))
   \<and> contents (snd (cleanNotes example_settings example_clock example_app))
        (js ''daily/2020-01-01.md'') = Some (js ''kept\<newline>'')
   \<and> Modify (js ''daily/2020-01-01.md'') (js ''kept\<newline>'')
       \<notin> set (new_requests example_app (snd (cleanNotes example_settings example_clock example_app)))"
proof -
  let ?run = "cleanNotes example_settings example_clock example_app"
  have h1: "?run = (fst ?run, snd ?run)"
    by (rule surjective_pairing)
  have h2: "contents example_app (js ''daily/2020-01-01.md'') = Some (js ''kept\<newline>'')"
    by code_simp
  have h3: "applyTransforms example_settings (js ''kept\<newline>'') = js ''kept\<newline>''"
    by code_simp
  have e: "isOldEnough example_settings example_zone (example_clock 0) (js ''2020-01-01'')"
    by code_simp
  have r: "Read (js ''daily/2020-01-01.md'') \<in> set (new_requests example_app (snd ?run))"
    by code_simp
  note t = cleanNotes_skips_unchanged [OF h1 h2 h3]
  from t have c1: "contents (snd ?run) (js ''daily/2020-01-01.md'') = Some (js ''kept\<newline>'')"
    by (rule conjunct1)
  from t have c2: "Modify (js ''daily/2020-01-01.md'') (js ''kept\<newline>'')
      \<notin> set (new_requests example_app (snd ?run))"
    by blast
  from h2 h3 e r c1 c2 show ?thesis
    by (intro conjI)
qed

text \<open>
  Claim C10: every request of a run, read or write, is for a direct child of the resolved
  folder that is a file with the extension \<open>md\<close>, and the content stored under any other
  path is the same after the run: files with another extension, subfolders and the
  documents inside subfolders are neither read nor changed. When no folder is resolved, no
  request is sent at all.
\<close>

theorem cleanNotes_only_md_children:
  assumes run: "cleanNotes settings clock a = (out, a')"
  shows "requests a' = requests a @ new_requests a a'
    \<and> (\<forall>r\<in>set (new_requests a a'). request_path r \<in> set (md_children settings a))
    \<and> (\<forall>p. p \<notin> set (md_children settings a) \<longrightarrow> contents a' p = contents a p)"
proof (cases "resolved_folder settings a")
  case None
  from cleanNotes_unresolved [OF None, of clock] run obtain message where "a' = Notice message a"
    by auto
  then show ?thesis by (simp add: Notice_def new_requests_def)
next
  case (Some children)
  obtain o1 a1 where c: "clean_children settings clock 0 children a = (o1, a1)"
    by (cases "clean_children settings clock 0 children a")
  from clean_children_frame [OF c] obtain reqs where r: "requests a1 = requests a @ reqs"
    "\<forall>r\<in>set reqs. request_path r \<in> set (md_child_paths children)"
    "\<forall>p. p \<notin> set (md_child_paths children) \<longrightarrow> contents a1 p = contents a p"
    by blast
  from run cleanNotes_resolved [OF Some, of clock] c
  have "requests a' = requests a1 \<and> contents a' = contents a1"
    by (cases o1) (auto simp: Notice_def)
  with r Some show ?thesis
    by (simp add: md_children_def new_requests_def)
qed

theorem cleanNotes_only_md_children_witness:
  "md_children example_settings example_app = [js ''daily/2020-01-01.md'', js ''daily/2020-01-02.md'']
   \<and> set (map request_path
          (new_requests example_app (snd (cleanNotes example_settings example_clock example_app))))
       \<subseteq> set (md_children example_settings example_app)
   \<and> js ''daily/2020-01-03.txt'' \<notin> set (md_children example_settings example_app)
   \<and> contents (snd (cleanNotes example_settings example_clock example_app)) (js ''daily/2020-01-03.txt'')
       = contents example_app (js ''daily/2020-01-03.txt'')
   \<and> js ''daily/old/2019-01-01.md'' \<notin> set (md_children example_settings example_app)
   \<and> contents (snd (cleanNotes example_settings example_clock example_app)) (js ''daily/old/2019-01-01.md'')
       = contents example_app (js ''daily/old/2019-01-01.md'')"
proof -
  let ?run = "cleanNotes example_settings example_clock example_app"
  have h1: "?run = (fst ?run, snd ?run)"
    by (rule surjective_pairing)
  have m: "md_children example_settings example_app
      = [js ''daily/2020-01-01.md'', js ''daily/2020-01-02.md'']"
    by code_simp
  have n1: "js ''daily/2020-01-03.txt'' \<notin> set (md_children example_settings example_app)"
    by code_simp
  have n2: "js ''daily/old/2019-01-01.md'' \<notin> set (md_children example_settings example_app)"
    by code_simp
  note t = cleanNotes_only_md_children [OF h1]
  from t have c1: "set (map request_path (new_requests example_app (snd ?run)))
      \<subseteq> set (md_children example_settings example_app)"
    by auto
  from t n1 have c2: "contents (snd ?run) (js ''daily/2020-01-03.txt'')
      = contents example_app (js ''daily/2020-01-03.txt'')"
    by blast
  from t n2 have c3: "contents (snd ?run) (js ''daily/old/2019-01-01.md'')
      = contents example_app (js ''daily/old/2019-01-01.md'')"
    by blast
  from m c1 n1 c2 n2 c3 show ?thesis
    by (intro conjI)
qed

end
